theory Spec2Isabelle
  imports Complex_Main "HOL-Library.Char_ord" "HOL-Library.List_Lexorder" "HOL-Library.Log_Nat"
begin

section \<open>Data model\<close>

text \<open>
  The pipeline of \<^verbatim>\<open>Sprints/Sprint1/mini_project.py\<close> reads a pandas DataFrame and
  writes log records. A DataFrame is modelled as its column headers (name and dtype name)
  and its rows, each row the list of its cells in column order, one cell for each column.
  A cell is a string, a number or missing (pandas' NaN). A number is the real value of a
  finite float64; comparing two of them is exact. The arithmetic of step 6, whose result
  is compared with the rating thresholds, rounds every operation to float64 (section
  ``Float arithmetic''). The row index is the default RangeIndex of \<^verbatim>\<open>read_csv\<close>, so
  the label of a row is its position.
\<close>

datatype cell = Str string | Num real | Null

type_synonym row = "cell list"

record table =
  columns :: "(string \<times> string) list"
  rows :: "row list"

definition col_names :: "table \<Rightarrow> string list" where
  "col_names df = map fst (columns df)"

definition len_df :: "table \<Rightarrow> nat" where
  "len_df df = length (rows df)"

text \<open>\<^verbatim>\<open>df.empty\<close>: one of the two axes has length 0.\<close>

definition df_empty :: "table \<Rightarrow> bool" where
  "df_empty df = (rows df = [] \<or> columns df = [])"

text \<open>The exceptions that the code can meet; all of them are subclasses of \<^verbatim>\<open>Exception\<close>.\<close>

datatype exn =
    FileNotFoundError
  | EmptyDataError
  | ZeroDivisionError
  | KeyError string
  | TypeError
  | OtherError string

datatype level = DEBUG | INFO | WARNING | ERROR | CRITICAL

text \<open>
  A log record is a level and a message. A message without interpolated values is the
  literal of the source (line feeds at its ends left out); a message with interpolated
  values carries the values, not their rendering as text. The score and the deductions
  that step 6 prints with \<^verbatim>\<open>:.1f\<close> are carried as printed, rounded to one decimal.
\<close>

datatype msg =
    Text string
  | Loading
  | Shape nat nat
  | MissingColumns "string list"
  | TypeOk string string
  | TypeFail string string string
  | SchemaFailed nat
  | NullColumnsFound nat
  | NullColumn string nat "real option"
  | NullRowIndices "nat list"
  | FullDupesFound nat
  | DuplicateRows "(nat \<times> row) list"
  | KeyDupesFound nat
  | KeyDupeCount cell nat
  | KeyDupeRows "(nat \<times> row) list"
  | InvalidCount string nat
  | InvalidRow string nat cell cell
  | QualityScore real
  | Rating string
  | Deduction string real
  | FileNotFound
  | FileEmpty
  | Unexpected exn

type_synonym log = "(level \<times> msg) list"

text \<open>
  A computation that logs and may raise: the records written so far, and the exception or
  the value. A raise keeps what was logged before it.
\<close>

type_synonym 'a io = "log \<times> (exn + 'a)"

definition seq :: "'a io \<Rightarrow> ('a \<Rightarrow> 'b io) \<Rightarrow> 'b io" where
  "seq m f = (case m of
      (l, Inl e) \<Rightarrow> (l, Inl e)
    | (l, Inr a) \<Rightarrow> (case f a of (l', r) \<Rightarrow> (l @ l', r)))"

definition emit :: "log \<Rightarrow> unit io" where
  "emit l = (l, Inr ())"

definition raise :: "exn \<Rightarrow> 'a io" where
  "raise e = ([], Inl e)"

definition ret :: "'a \<Rightarrow> 'a io" where
  "ret a = ([], Inr a)"

section \<open>Float arithmetic\<close>

text \<open>
  Python's floats are IEEE 754 binary64 numbers: every operation returns the exact result
  rounded to the nearest number with a significand of 53 bits, a tie going to the even
  significand. \<open>fl\<close> is that rounding, for a real of magnitude below \<open>2 ^ 1024\<close> (the
  quantities of step 6 are at most 100); below \<open>2 ^ -1022\<close> the spacing stays \<open>2 ^ -1074\<close>.
\<close>

definition round_half_even :: "real \<Rightarrow> int" where
  "round_half_even y =
     (let m = \<lfloor>y\<rfloor>; r = y - of_int m
      in if r < 1 / 2 then m else if 1 / 2 < r then m + 1 else if even m then m else m + 1)"

text \<open>The integer \<open>k\<close> with \<open>2 ^ k \<le> a < 2 ^ (k + 1)\<close>, for \<open>a > 0\<close>.\<close>

definition ilog2 :: "real \<Rightarrow> int" where
  "ilog2 a = (if 1 \<le> a then bitlen \<lfloor>a\<rfloor> - 1 else - bitlen (\<lceil>1 / a\<rceil> - 1))"

definition fl :: "real \<Rightarrow> real" where
  "fl x =
     (if x = 0 then 0
      else let a = \<bar>x\<bar>;
               e = max (ilog2 a - 52) (- 1074);
               m = round_half_even (a / 2 powi e)
           in sgn x * of_int m * 2 powi e)"

definition float_div :: "real \<Rightarrow> real \<Rightarrow> real" where
  "float_div a b = fl (a / b)"

definition float_mul :: "real \<Rightarrow> real \<Rightarrow> real" where
  "float_mul a b = fl (a * b)"

definition float_sub :: "real \<Rightarrow> real \<Rightarrow> real" where
  "float_sub a b = fl (a - b)"

text \<open>\<^verbatim>\<open>f"{x:.1f}"\<close>: the decimal with one digit after the point nearest to the float.\<close>

definition fmt1 :: "real \<Rightarrow> real" where
  "fmt1 x = of_int (round_half_even (x * 10)) / 10"

section \<open>Configuration\<close>

definition EXPECTED_SCHEMA :: "(string \<times> string) list" where
  "EXPECTED_SCHEMA =
    [(''Sprint'', ''object''), (''Sprint_Name'', ''object''), (''Phase'', ''object''),
     (''Story_ID'', ''object''), (''Story_Name'', ''object''), (''Type'', ''object''),
     (''Description'', ''object''), (''Tasks'', ''object''), (''Est_Hours'', ''float64''),
     (''Resources'', ''object''), (''Acceptance_Criteria'', ''object'')]"

definition VALID_VALUES :: "string \<Rightarrow> string list" where
  "VALID_VALUES k =
    (if k = ''Phase'' then
       [''Foundation'', ''Core Tools'', ''Capstone'', ''Revision'', ''Advanced Concepts'',
        ''Software Engineering'', ''Cloud & Infrastructure'', ''Interview Prep'']
     else if k = ''Type'' then
       [''Setup'', ''Study'', ''Practice'', ''Design'', ''Implementation'', ''Documentation'',
        ''Interview Prep'', ''Job Search'', ''Project'', ''Study & Practice'', ''Revision'']
     else [])"

definition MIN_EST_HOURS :: real where
  "MIN_EST_HOURS = 1 / 2"

definition MAX_EST_HOURS :: real where
  "MAX_EST_HOURS = 100"

section \<open>The pandas operations the stages use\<close>

fun index_of :: "'a \<Rightarrow> 'a list \<Rightarrow> nat option" where
  "index_of x [] = None"
| "index_of x (y # ys) = (if x = y then Some 0 else map_option Suc (index_of x ys))"

text \<open>\<^verbatim>\<open>df[col]\<close> as the list of the column's cells, once the column's position is known.\<close>

definition column_at :: "table \<Rightarrow> nat \<Rightarrow> cell list" where
  "column_at df i = map (\<lambda>r. r ! i) (rows df)"

text \<open>\<^verbatim>\<open>df[col]\<close> and \<^verbatim>\<open>row[col]\<close>: a KeyError when the table has no such column.\<close>

definition row_get :: "table \<Rightarrow> row \<Rightarrow> string \<Rightarrow> exn + cell" where
  "row_get df r c = (case index_of c (col_names df) of
      None \<Rightarrow> Inl (KeyError c)
    | Some i \<Rightarrow> Inr (r ! i))"

definition isnull :: "cell \<Rightarrow> bool" where
  "isnull v = (v = Null)"

text \<open>\<^verbatim>\<open>mask.sum()\<close>: the number of True entries.\<close>

definition mask_sum :: "bool list \<Rightarrow> nat" where
  "mask_sum m = length (filter (\<lambda>b. b) m)"

text \<open>\<^verbatim>\<open>df[mask]\<close>: the rows whose mask entry is True, each with its index label.\<close>

definition select :: "bool list \<Rightarrow> 'a list \<Rightarrow> (nat \<times> 'a) list" where
  "select m xs = map snd (filter fst (zip m (zip [0..<length xs] xs)))"

text \<open>
  \<^verbatim>\<open>duplicated(keep='first')\<close> marks an entry that has an equal entry before it;
  \<^verbatim>\<open>duplicated(keep=False)\<close> marks every entry that has an equal entry elsewhere.
  Missing values count as equal to each other. On an empty frame pandas returns an empty
  mask.
\<close>

fun dup_scan :: "'a list \<Rightarrow> 'a list \<Rightarrow> bool list" where
  "dup_scan seen [] = []"
| "dup_scan seen (x # xs) = (x \<in> set seen) # dup_scan (x # seen) xs"

definition duplicated_first :: "'a list \<Rightarrow> bool list" where
  "duplicated_first xs = dup_scan [] xs"

definition duplicated_all :: "'a list \<Rightarrow> bool list" where
  "duplicated_all xs = map (\<lambda>x. 1 < count_list xs x) xs"

definition df_duplicated :: "table \<Rightarrow> bool list" where
  "df_duplicated df = (if df_empty df then [] else duplicated_first (rows df))"

definition df_duplicated_all :: "table \<Rightarrow> bool list" where
  "df_duplicated_all df = (if df_empty df then [] else duplicated_all (rows df))"

text \<open>
  \<^verbatim>\<open>sort_values(by=list(df.columns))\<close> sorts the rows by their columns from left to
  right, missing values last in each column. Within a column numbers compare by value
  and strings by code point. With several columns the sort is stable and a number sorts
  before a string. With one column pandas compares the values of that column that are not
  missing with each other, which raises TypeError when a number meets a string; it does
  not fix the order in which equal rows come out, and the model lists them by index.
\<close>

fun cell_le :: "cell \<Rightarrow> cell \<Rightarrow> bool" where
  "cell_le (Num a) (Num b) = (a \<le> b)"
| "cell_le (Num a) (Str t) = True"
| "cell_le (Str s) (Num b) = False"
| "cell_le (Str s) (Str t) = (s \<le> t)"
| "cell_le v Null = True"
| "cell_le Null v = False"

fun row_le :: "row \<Rightarrow> row \<Rightarrow> bool" where
  "row_le [] ys = True"
| "row_le (x # xs) [] = False"
| "row_le (x # xs) (y # ys) = (if x = y then row_le xs ys else cell_le x y)"

fun insert_by :: "('a \<Rightarrow> 'a \<Rightarrow> bool) \<Rightarrow> 'a \<Rightarrow> 'a list \<Rightarrow> 'a list" where
  "insert_by le x [] = [x]"
| "insert_by le x (y # ys) = (if le x y then x # y # ys else y # insert_by le x ys)"

definition sort_by :: "('a \<Rightarrow> 'a \<Rightarrow> bool) \<Rightarrow> 'a list \<Rightarrow> 'a list" where
  "sort_by le xs = foldr (insert_by le) xs []"

definition is_num :: "cell \<Rightarrow> bool" where
  "is_num v = (case v of Num a \<Rightarrow> True | _ \<Rightarrow> False)"

definition is_str :: "cell \<Rightarrow> bool" where
  "is_str v = (case v of Str s \<Rightarrow> True | _ \<Rightarrow> False)"

definition mixed :: "cell list \<Rightarrow> bool" where
  "mixed vs = (list_ex is_num vs \<and> list_ex is_str vs)"

definition sort_values :: "nat \<Rightarrow> (nat \<times> row) list \<Rightarrow> exn + (nat \<times> row) list" where
  "sort_values nkeys sel =
     (if nkeys = 1 \<and> mixed (map (\<lambda>ir. snd ir ! 0) sel) then Inl TypeError
      else Inr (sort_by (\<lambda>a b. row_le (snd a) (snd b)) sel))"

text \<open>
  \<^verbatim>\<open>value_counts()\<close>: the distinct values with their numbers of occurrences, missing
  values dropped, the most frequent first, values of equal frequency in the order of
  their first occurrence.
\<close>

definition first_seen :: "'a list \<Rightarrow> 'a list" where
  "first_seen xs = rev (remdups (rev xs))"

definition value_counts :: "cell list \<Rightarrow> (cell \<times> nat) list" where
  "value_counts xs =
     sort_by (\<lambda>a b. snd b \<le> snd a)
       (map (\<lambda>v. (v, count_list xs v)) (first_seen (filter (\<lambda>v. \<not> isnull v) xs)))"

text \<open>\<^verbatim>\<open>series.isin(values)\<close> for a list of strings.\<close>

definition isin :: "cell \<Rightarrow> string list \<Rightarrow> bool" where
  "isin v allowed = (case v of Str s \<Rightarrow> s \<in> set allowed | _ \<Rightarrow> False)"

text \<open>
  \<^verbatim>\<open>series < x\<close> and \<^verbatim>\<open>series > x\<close> for a float \<open>x\<close>: False at a missing value, a
  TypeError when the column holds a string.
\<close>

fun cell_lt :: "cell \<Rightarrow> real \<Rightarrow> exn + bool" where
  "cell_lt (Num a) x = Inr (a < x)"
| "cell_lt Null x = Inr False"
| "cell_lt (Str s) x = Inl TypeError"

fun cell_gt :: "cell \<Rightarrow> real \<Rightarrow> exn + bool" where
  "cell_gt (Num a) x = Inr (a > x)"
| "cell_gt Null x = Inr False"
| "cell_gt (Str s) x = Inl TypeError"

fun series_cmp :: "(cell \<Rightarrow> real \<Rightarrow> exn + bool) \<Rightarrow> cell list \<Rightarrow> real \<Rightarrow> exn + bool list" where
  "series_cmp cmp [] x = Inr []"
| "series_cmp cmp (v # vs) x = (case cmp v x of
      Inl e \<Rightarrow> Inl e
    | Inr b \<Rightarrow> (case series_cmp cmp vs x of Inl e \<Rightarrow> Inl e | Inr bs \<Rightarrow> Inr (b # bs)))"

text \<open>
  Python's \<^verbatim>\<open>a / b\<close> on two ints raises on a zero divisor and otherwise gives the
  float nearest to the quotient.
\<close>

definition py_true_divide :: "nat \<Rightarrow> nat \<Rightarrow> exn + real" where
  "py_true_divide a b =
     (if b = 0 then Inl ZeroDivisionError else Inr (float_div (real a) (real b)))"

text \<open>
  numpy's \<^verbatim>\<open>a / b\<close> on an int64 and an int does not raise: on a zero divisor the result is
  not a finite number (None here).
\<close>

definition np_true_divide :: "nat \<Rightarrow> nat \<Rightarrow> real option" where
  "np_true_divide a b = (if b = 0 then None else Some (real a / real b))"

section \<open>The stages\<close>

definition bar :: "nat \<Rightarrow> msg" where
  "bar n = Text (replicate n CHR ''='')"

definition header :: "string \<Rightarrow> unit io" where
  "header title = emit [(INFO, bar 70), (INFO, Text title), (INFO, bar 70)]"

subsection \<open>Step 1: \<^verbatim>\<open>validate_schema\<close>\<close>

fun starts_with :: "string \<Rightarrow> string \<Rightarrow> bool" where
  "starts_with [] s = True"
| "starts_with (a # as) [] = False"
| "starts_with (a # as) (b # bs) = (a = b \<and> starts_with as bs)"

text \<open>\<^verbatim>\<open>sub in s\<close> on strings.\<close>

fun str_contains :: "string \<Rightarrow> string \<Rightarrow> bool" where
  "str_contains sub [] = (sub = [])"
| "str_contains sub (c # cs) = (starts_with sub (c # cs) \<or> str_contains sub cs)"

fun check_dtypes :: "table \<Rightarrow> (string \<times> string) list \<Rightarrow> log \<times> nat" where
  "check_dtypes df [] = ([], 0)"
| "check_dtypes df ((col, expected_type) # rest) =
     (case map_of (columns df) col of
        None \<Rightarrow> check_dtypes df rest
      | Some actual_type \<Rightarrow>
          (case check_dtypes df rest of (l, n) \<Rightarrow>
             if str_contains expected_type actual_type
             then ((INFO, TypeOk col actual_type) # l, n)
             else ((WARNING, TypeFail col expected_type actual_type) # l, Suc n)))"

definition validate_schema :: "table \<Rightarrow> unit io" where
  "validate_schema df =
     seq (header ''STEP 1: SCHEMA VALIDATION'') (\<lambda>_.
       let missing_cols = filter (\<lambda>c. c \<notin> set (col_names df)) (map fst EXPECTED_SCHEMA);
           issues1 = (if missing_cols \<noteq> [] then length missing_cols else 0);
           l1 = (if missing_cols \<noteq> [] then [(ERROR, MissingColumns missing_cols)]
                 else [(INFO, Text ''  [OK] All expected columns are present'')])
       in case check_dtypes df EXPECTED_SCHEMA of (l2, issues2) \<Rightarrow>
            emit (l1 @ l2 @
              (if issues1 + issues2 = 0 then [(INFO, Text ''Result: PASSED'')]
               else [(WARNING, SchemaFailed (issues1 + issues2))])))"

subsection \<open>Step 2: \<^verbatim>\<open>check_nulls\<close>\<close>

text \<open>\<^verbatim>\<open>df.isnull().sum()\<close>: for each column, in column order, its number of missing cells.\<close>

definition null_count :: "table \<Rightarrow> nat \<Rightarrow> nat" where
  "null_count df i = mask_sum (map isnull (column_at df i))"

definition null_counts :: "table \<Rightarrow> (nat \<times> nat) list" where
  "null_counts df = map (\<lambda>i. (i, null_count df i)) [0..<length (columns df)]"

text \<open>
  The body of the loop over the columns that have missing cells, for the column at
  position \<open>i\<close>. The call at DEBUG level is part of the trace although the handlers,
  set to INFO, do not print it.
\<close>

definition null_report :: "table \<Rightarrow> nat \<times> nat \<Rightarrow> log" where
  "null_report df ic = (case ic of (i, count) \<Rightarrow>
     [(WARNING, NullColumn (col_names df ! i) count
                  (map_option (\<lambda>q. q * 100) (np_true_divide count (len_df df)))),
      (DEBUG, NullRowIndices (map fst (select (map isnull (column_at df i)) (rows df))))])"

definition check_nulls :: "table \<Rightarrow> unit io" where
  "check_nulls df =
     seq (header ''STEP 2: NULL VALUE CHECK'') (\<lambda>_.
       let cols_with_nulls = filter (\<lambda>ic. 0 < snd ic) (null_counts df)
       in if cols_with_nulls \<noteq> [] then
            emit ([(WARNING, NullColumnsFound (length cols_with_nulls))]
                  @ concat (map (null_report df) cols_with_nulls)
                  @ [(WARNING, Text ''Result: FAILED (NULLs found)'')])
          else
            emit [(INFO, Text ''  [OK] No NULL values found''),
                  (INFO, Text ''Result: PASSED'')])"

subsection \<open>Step 3: \<^verbatim>\<open>check_full_duplicates\<close>\<close>

definition check_full_duplicates :: "table \<Rightarrow> unit io" where
  "check_full_duplicates df =
     seq (header ''STEP 3: FULL ROW DUPLICATE CHECK'') (\<lambda>_.
       let full_dupes_mask = df_duplicated_all df;
           n_full_dupes = mask_sum full_dupes_mask
       in if 0 < n_full_dupes then
            seq (emit [(WARNING, FullDupesFound n_full_dupes)]) (\<lambda>_.
              case sort_values (length (columns df)) (select full_dupes_mask (rows df)) of
                Inl e \<Rightarrow> raise e
              | Inr dupe_df \<Rightarrow>
                  emit [(WARNING, DuplicateRows dupe_df),
                        (WARNING, Text ''Result: FAILED (duplicates found)'')])
          else
            emit [(INFO, Text ''  [OK] No full row duplicates found''),
                  (INFO, Text ''Result: PASSED'')])"

subsection \<open>Step 4: \<^verbatim>\<open>check_key_duplicates\<close>\<close>

text \<open>\<^verbatim>\<open>df.duplicated(subset=[col], keep=False)\<close> for the column at position \<open>i\<close>.\<close>

definition key_duplicated_all :: "table \<Rightarrow> nat \<Rightarrow> bool list" where
  "key_duplicated_all df i = (if df_empty df then [] else duplicated_all (column_at df i))"

definition check_key_duplicates :: "table \<Rightarrow> unit io" where
  "check_key_duplicates df =
     seq (header ''STEP 4: PRIMARY KEY DUPLICATE CHECK'') (\<lambda>_.
       case index_of ''Story_ID'' (col_names df) of
         None \<Rightarrow>
           emit [(WARNING, Text ''  Column 'Story_ID' not found. Skipping this check.''),
                 (INFO, Text ''Result: SKIPPED'')]
       | Some i \<Rightarrow>
           (let key_dupes_mask = key_duplicated_all df i;
                n_key_dupes = mask_sum key_dupes_mask
            in if 0 < n_key_dupes then
                 (let conflicting = select key_dupes_mask (rows df);
                      dupe_ids = value_counts (map (\<lambda>ir. snd ir ! i) conflicting)
                  in emit ([(ERROR, KeyDupesFound n_key_dupes),
                            (ERROR, Text ''Duplicate Story_IDs and their counts:'')]
                           @ map (\<lambda>sc. (ERROR, KeyDupeCount (fst sc) (snd sc))) dupe_ids
                           @ [(ERROR, KeyDupeRows conflicting),
                              (ERROR, Text ''Result: FAILED (primary key violation)'')]))
               else
                 emit [(INFO, Text ''  [OK] All Story_IDs are unique''),
                       (INFO, Text ''Result: PASSED'')]))"

subsection \<open>Step 5: \<^verbatim>\<open>validate_business_logic\<close>\<close>

text \<open>
  The mask \<^verbatim>\<open>(df['Est_Hours'] < MIN_EST_HOURS) | (df['Est_Hours'] > MAX_EST_HOURS)\<close>, which
  step 5 and step 6 both compute.
\<close>

definition invalid_hours_mask :: "cell list \<Rightarrow> exn + bool list" where
  "invalid_hours_mask col =
     (case series_cmp cell_lt col MIN_EST_HOURS of
        Inl e \<Rightarrow> Inl e
      | Inr lo \<Rightarrow> (case series_cmp cell_gt col MAX_EST_HOURS of
          Inl e \<Rightarrow> Inl e
        | Inr hi \<Rightarrow> Inr (map (\<lambda>p. fst p \<or> snd p) (zip lo hi))))"

text \<open>The mask \<^verbatim>\<open>~df[c].isin(VALID_VALUES[c])\<close>.\<close>

definition invalid_enum_mask :: "string \<Rightarrow> cell list \<Rightarrow> bool list" where
  "invalid_enum_mask c col = map (\<lambda>v. \<not> isin v (VALID_VALUES c)) col"

text \<open>The loop over the flagged rows: one warning for each, citing \<^verbatim>\<open>row['Story_ID']\<close>.\<close>

fun log_invalid_rows :: "string \<Rightarrow> table \<Rightarrow> (nat \<times> row) list \<Rightarrow> unit io" where
  "log_invalid_rows c df [] = ret ()"
| "log_invalid_rows c df ((idx, r) # rest) =
     (case row_get df r ''Story_ID'' of
        Inl e \<Rightarrow> raise e
      | Inr story_id \<Rightarrow> (case row_get df r c of
          Inl e \<Rightarrow> raise e
        | Inr v \<Rightarrow> seq (emit [(WARNING, InvalidRow c idx story_id v)])
                      (\<lambda>_. log_invalid_rows c df rest)))"

definition report_invalid :: "string \<Rightarrow> string \<Rightarrow> table \<Rightarrow> (nat \<times> row) list \<Rightarrow> bool \<Rightarrow> bool io" where
  "report_invalid c ok_text df invalid issues_found =
     (if invalid \<noteq> [] then
        seq (emit [(WARNING, InvalidCount c (length invalid))]) (\<lambda>_.
        seq (log_invalid_rows c df invalid) (\<lambda>_. ret True))
      else seq (emit [(INFO, Text ok_text)]) (\<lambda>_. ret issues_found))"

text \<open>The selection \<^verbatim>\<open>df[mask]\<close> with that mask, for the column at position \<open>i\<close>.\<close>

definition invalid_hours :: "table \<Rightarrow> nat \<Rightarrow> exn + (nat \<times> row) list" where
  "invalid_hours df i =
     (case invalid_hours_mask (column_at df i) of
        Inl e \<Rightarrow> Inl e
      | Inr m \<Rightarrow> Inr (select m (rows df)))"

definition check_est_hours :: "table \<Rightarrow> bool \<Rightarrow> bool io" where
  "check_est_hours df issues_found =
     seq (emit [(INFO, Text ''Checking Est_Hours range...'')]) (\<lambda>_.
       case index_of ''Est_Hours'' (col_names df) of
         None \<Rightarrow> ret issues_found
       | Some i \<Rightarrow> (case invalid_hours df i of
           Inl e \<Rightarrow> raise e
         | Inr sel \<Rightarrow> report_invalid ''Est_Hours''
                        ''  [OK] All Est_Hours values are in valid range''
                        df sel issues_found))"

definition check_enum :: "string \<Rightarrow> table \<Rightarrow> bool \<Rightarrow> bool io" where
  "check_enum c df issues_found =
     seq (emit [(INFO, Text (''Checking '' @ c @ '' enum values...''))]) (\<lambda>_.
       case index_of c (col_names df) of
         None \<Rightarrow> ret issues_found
       | Some i \<Rightarrow> report_invalid c (''  [OK] All '' @ c @ '' values are valid'')
                     df (select (invalid_enum_mask c (column_at df i)) (rows df)) issues_found)"

definition validate_business_logic :: "table \<Rightarrow> unit io" where
  "validate_business_logic df =
     seq (header ''STEP 5: BUSINESS LOGIC VALIDATION'') (\<lambda>_.
     seq (check_est_hours df False) (\<lambda>issues1.
     seq (check_enum ''Phase'' df issues1) (\<lambda>issues2.
     seq (check_enum ''Type'' df issues2) (\<lambda>issues_found.
       if \<not> issues_found then emit [(INFO, Text ''Result: PASSED'')]
       else emit [(WARNING, Text ''Result: FAILED (business logic violations found)'')]))))"

subsection \<open>Step 6: \<^verbatim>\<open>calculate_data_quality_score\<close>\<close>

text \<open>
  The running state of the scorer: the score, and the dictionary of deductions in the
  order of insertion. Every arithmetic operation of the source is a float operation here;
  a count below \<open>2 ^ 53\<close> becomes a float unchanged, and the literal \<^verbatim>\<open>6.67\<close> is the
  float \<open>fl 6.67\<close>.
\<close>

type_synonym scoring = "real \<times> (string \<times> real) list"

definition deduct :: "string \<Rightarrow> real \<Rightarrow> scoring \<Rightarrow> scoring" where
  "deduct category d st = (float_sub (fst st) d, snd st @ [(category, d)])"

definition null_deduction :: "table \<Rightarrow> real" where
  "null_deduction df =
     (let total_cells = len_df df * length (columns df);
          null_cells = sum_list (map snd (null_counts df));
          null_ratio = (if 0 < total_cells
                        then float_mul (float_div (real null_cells) (real total_cells)) 100
                        else 0)
      in min 20 (float_div null_ratio 5))"

definition dupe_deduction :: "table \<Rightarrow> real" where
  "dupe_deduction df =
     (let dupe_ratio = (if 0 < len_df df
                        then float_mul (float_div (real (mask_sum (df_duplicated df)))
                                                  (real (len_df df))) 100
                        else 0)
      in min 15 (float_div dupe_ratio (fl 6.67)))"

definition invalid_phase_count :: "table \<Rightarrow> nat \<Rightarrow> nat" where
  "invalid_phase_count df i =
     length (select (invalid_enum_mask ''Phase'' (column_at df i)) (rows df))"

definition phase_step :: "table \<Rightarrow> scoring \<Rightarrow> exn + scoring" where
  "phase_step df st =
     (case index_of ''Phase'' (col_names df) of
        None \<Rightarrow> Inr st
      | Some i \<Rightarrow> (case py_true_divide (invalid_phase_count df i) (len_df df) of
          Inl e \<Rightarrow> Inl e
        | Inr q \<Rightarrow> (let invalid_phase_ratio = float_mul q 100;
                        phase_deduction = min 15 (float_div invalid_phase_ratio (fl 6.67))
                    in Inr (deduct ''Invalid Phase'' phase_deduction st))))"

definition invalid_hours_count :: "table \<Rightarrow> nat \<Rightarrow> exn + nat" where
  "invalid_hours_count df i =
     (case invalid_hours df i of
        Inl e \<Rightarrow> Inl e
      | Inr sel \<Rightarrow> Inr (length sel))"

definition hours_step :: "table \<Rightarrow> scoring \<Rightarrow> exn + scoring" where
  "hours_step df st =
     (case index_of ''Est_Hours'' (col_names df) of
        None \<Rightarrow> Inr st
      | Some i \<Rightarrow> (case invalid_hours_count df i of
          Inl e \<Rightarrow> Inl e
        | Inr n \<Rightarrow> (case py_true_divide n (len_df df) of
            Inl e \<Rightarrow> Inl e
          | Inr q \<Rightarrow> (let invalid_hours_ratio = float_mul q 100;
                          hours_deduction = min 10 (float_div invalid_hours_ratio 10)
                      in Inr (deduct ''Invalid Hours'' hours_deduction st)))))"

text \<open>The score before \<^verbatim>\<open>max(0, score)\<close>, with the deductions made.\<close>

definition deductions_of :: "table \<Rightarrow> exn + scoring" where
  "deductions_of df =
     (let st0 = (100, []);
          st1 = deduct ''NULLs'' (null_deduction df) st0;
          st2 = deduct ''Duplicates'' (dupe_deduction df) st1
      in case phase_step df st2 of
           Inl e \<Rightarrow> Inl e
         | Inr st3 \<Rightarrow> hours_step df st3)"

definition rating_of :: "real \<Rightarrow> string" where
  "rating_of score =
     (if score \<ge> 90 then ''EXCELLENT''
      else if score \<ge> 70 then ''GOOD''
      else if score \<ge> 50 then ''FAIR (needs work)''
      else ''POOR (critical issues)'')"

definition calculate_data_quality_score :: "table \<Rightarrow> unit io" where
  "calculate_data_quality_score df =
     seq (header ''STEP 6: DATA QUALITY SCORE (Advanced)'') (\<lambda>_.
       case deductions_of df of
         Inl e \<Rightarrow> raise e
       | Inr st \<Rightarrow>
           (let score = max 0 (fst st)
            in emit ([(INFO, QualityScore (fmt1 score)),
                      (INFO, Rating (rating_of score)),
                      (INFO, Text ''Deduction Breakdown:'')]
                     @ map (\<lambda>cd. (INFO, Deduction (fst cd) (fmt1 (snd cd))))
                         (filter (\<lambda>cd. 0 < snd cd) (snd st))
                     @ [(INFO, Text ''Result: DATA QUALITY SCORE CALCULATED'')])))"

section \<open>The orchestrator\<close>

text \<open>
  \<^verbatim>\<open>main\<close> takes what \<^verbatim>\<open>pd.read_csv\<close> did, a raised exception or the loaded table, and
  returns the log with the exit status of the process: 0 when \<^verbatim>\<open>main\<close> returns, 1
  after \<^verbatim>\<open>sys.exit(1)\<close>. The six stages run inside the same \<^verbatim>\<open>try\<close> as the load.
\<close>

definition run_stages :: "table \<Rightarrow> unit io" where
  "run_stages df =
     seq (validate_schema df) (\<lambda>_.
     seq (check_nulls df) (\<lambda>_.
     seq (check_full_duplicates df) (\<lambda>_.
     seq (check_key_duplicates df) (\<lambda>_.
     seq (validate_business_logic df) (\<lambda>_.
     calculate_data_quality_score df)))))"

definition try_body :: "exn + table \<Rightarrow> unit io" where
  "try_body loaded =
     seq (emit [(INFO, Loading)]) (\<lambda>_.
       case loaded of
         Inl e \<Rightarrow> raise e
       | Inr df \<Rightarrow>
           seq (emit [(INFO, Text ''File loaded successfully''),
                      (INFO, Shape (len_df df) (length (columns df)))]) (\<lambda>_.
           seq (run_stages df) (\<lambda>_.
             emit [(INFO, bar 70), (INFO, Text ''VALIDATION PIPELINE COMPLETED''),
                   (INFO, bar 70),
                   (INFO, Text ''Full report saved to: validation_report.log'')])))"

fun handler :: "exn \<Rightarrow> log" where
  "handler FileNotFoundError =
     [(CRITICAL, FileNotFound),
      (CRITICAL, Text ''Make sure test_data.csv is in the current directory.'')]"
| "handler EmptyDataError = [(CRITICAL, FileEmpty)]"
| "handler e = [(CRITICAL, Unexpected e)]"

definition main :: "exn + table \<Rightarrow> log \<times> nat" where
  "main loaded =
     (case seq (emit [(INFO, bar 114), (INFO, Text ''DATA VALIDATION PIPELINE STARTED''),
                      (INFO, bar 70)]) (\<lambda>_. try_body loaded) of
        (l, Inr _) \<Rightarrow> (l, 0)
      | (l, Inl e) \<Rightarrow> (l @ handler e, 1))"

section \<open>Observations\<close>

text \<open>The messages logged at one level, in order.\<close>

definition at_level :: "level \<Rightarrow> log \<Rightarrow> msg list" where
  "at_level lv l = map snd (filter (\<lambda>r. fst r = lv) l)"

text \<open>A computation that logs no load-failure message and raises no exception of the loader.\<close>

definition load_free :: "'a io \<Rightarrow> bool" where
  "load_free m =
     ((\<forall>r \<in> set (fst m). snd r \<noteq> FileNotFound \<and> snd r \<noteq> FileEmpty) \<and>
      snd m \<noteq> Inl FileNotFoundError \<and> snd m \<noteq> Inl EmptyDataError)"

section \<open>Properties of the operations\<close>

lemma mask_sum_card: "mask_sum m = card {j. j < length m \<and> m ! j}"
  by (simp add: mask_sum_def length_filter_conv_card)

lemma select_eq:
  "length m = length xs \<Longrightarrow>
   select m xs = map (\<lambda>j. (j, xs ! j)) (filter (\<lambda>j. m ! j) [0..<length xs])"
proof (induction xs arbitrary: m rule: rev_induct)
  case Nil
  then show ?case by (simp add: select_def)
next
  case (snoc x xs)
  then obtain m' b where m: "m = m' @ [b]" and len: "length m' = length xs"
    by (cases m rule: rev_cases) auto
  let ?n = "length xs"
  let ?ys = "xs @ [x]"
  have ih: "select m' xs = map (\<lambda>j. (j, xs ! j)) (filter (\<lambda>j. m' ! j) [0..<?n])"
    using snoc.IH [OF len] .
  have eq1: "filter (\<lambda>j. m ! j) [0..<?n] = filter (\<lambda>j. m' ! j) [0..<?n]"
    unfolding m using len by (intro filter_cong) (auto simp: nth_append)
  have mn: "m ! ?n = b"
    unfolding m using len by (simp add: nth_append)
  have eq2: "map (\<lambda>j. (j, ?ys ! j)) (filter (\<lambda>j. m' ! j) [0..<?n])
           = map (\<lambda>j. (j, xs ! j)) (filter (\<lambda>j. m' ! j) [0..<?n])"
    by (intro map_cong) (auto simp: nth_append)
  have yn: "?ys ! ?n = x" by simp
  have sel: "select m ?ys = select m' xs @ (if b then [(?n, x)] else [])"
    using len by (simp add: select_def m)
  have "map (\<lambda>j. (j, ?ys ! j)) (filter (\<lambda>j. m ! j) [0..<length ?ys])
      = map (\<lambda>j. (j, ?ys ! j)) (filter (\<lambda>j. m ! j) [0..<?n]) @ (if b then [(?n, x)] else [])"
    using mn yn by simp
  also have "\<dots> = select m' xs @ (if b then [(?n, x)] else [])"
    by (simp only: eq1 eq2 ih)
  finally show ?case using sel by simp
qed

lemma set_select:
  "length m = length xs \<Longrightarrow> set (select m xs) = {(j, xs ! j) | j. j < length xs \<and> m ! j}"
  by (auto simp: select_eq)

lemma length_select:
  "length m = length xs \<Longrightarrow> length (select m xs) = mask_sum m"
proof -
  assume len: "length m = length xs"
  have "filter (\<lambda>b. b) m = map (\<lambda>j. m ! j) (filter (\<lambda>j. m ! j) [0..<length m])"
    by (subst (1) map_nth [symmetric]) (simp only: filter_map comp_def)
  then have "length (filter (\<lambda>b. b) m) = length (filter (\<lambda>j. m ! j) [0..<length m])"
    by (metis length_map)
  then show ?thesis using len by (simp add: select_eq mask_sum_def)
qed

lemma select_nil_iff:
  "length m = length xs \<Longrightarrow> select m xs = [] \<longleftrightarrow> (\<forall>j < length xs. \<not> m ! j)"
  by (auto simp: select_eq filter_empty_conv)

lemma length_dup_scan: "length (dup_scan seen xs) = length xs"
  by (induction xs arbitrary: seen) auto

lemma nth_dup_scan:
  "j < length xs \<Longrightarrow> dup_scan seen xs ! j \<longleftrightarrow> xs ! j \<in> set seen \<union> set (take j xs)"
proof (induction xs arbitrary: seen j)
  case Nil
  then show ?case by simp
next
  case (Cons x xs)
  then show ?case by (cases j) auto
qed

lemma nth_duplicated_first:
  "j < length xs \<Longrightarrow> duplicated_first xs ! j \<longleftrightarrow> (\<exists>k<j. xs ! k = xs ! j)"
  by (auto simp: duplicated_first_def nth_dup_scan in_set_conv_nth) 

lemma count_list_gt1_iff:
  "j < length xs \<Longrightarrow> 1 < count_list xs (xs ! j) \<longleftrightarrow> (\<exists>k<length xs. k \<noteq> j \<and> xs ! k = xs ! j)"
proof -
  assume j: "j < length xs"
  have "{i. i < length xs \<and> xs ! j = xs ! i} = {k. k < length xs \<and> xs ! k = xs ! j}"
    by auto
  then have c: "count_list xs (xs ! j) = card {k. k < length xs \<and> xs ! k = xs ! j}"
    by (simp add: count_list_eq_length_filter length_filter_conv_card)
  have fin: "finite {k. k < length xs \<and> xs ! k = xs ! j}" by simp
  have jin: "j \<in> {k. k < length xs \<and> xs ! k = xs ! j}" using j by simp
  show ?thesis
  proof
    assume "1 < count_list xs (xs ! j)"
    then have "1 < card {k. k < length xs \<and> xs ! k = xs ! j}" using c by simp
    then have "card ({k. k < length xs \<and> xs ! k = xs ! j} - {j}) > 0"
      using jin fin by (simp add: card_Diff_singleton)
    then obtain k where "k \<in> {k. k < length xs \<and> xs ! k = xs ! j} - {j}"
      by (metis card_gt_0_iff ex_in_conv)
    then show "\<exists>k<length xs. k \<noteq> j \<and> xs ! k = xs ! j" by auto
  next
    assume "\<exists>k<length xs. k \<noteq> j \<and> xs ! k = xs ! j"
    then obtain k where k: "k < length xs" "k \<noteq> j" "xs ! k = xs ! j" by auto
    then have "{j, k} \<subseteq> {k. k < length xs \<and> xs ! k = xs ! j}" using j by auto
    then have "card {j, k} \<le> card {k. k < length xs \<and> xs ! k = xs ! j}"
      using fin card_mono by blast
    then show "1 < count_list xs (xs ! j)" using k c by simp
  qed
qed

lemma length_duplicated_all: "length (duplicated_all xs) = length xs"
  by (simp add: duplicated_all_def)

lemma nth_duplicated_all:
  "j < length xs \<Longrightarrow> duplicated_all xs ! j \<longleftrightarrow> (\<exists>k<length xs. k \<noteq> j \<and> xs ! k = xs ! j)"
  using count_list_gt1_iff [of j xs] by (simp add: duplicated_all_def)





lemma fst_seq:
  "fst (seq m f) = fst m @ (case snd m of Inl e \<Rightarrow> [] | Inr a \<Rightarrow> fst (f a))"
  by (cases m; cases "snd m") (auto simp: seq_def split: prod.splits)

lemma snd_seq:
  "snd (seq m f) = (case snd m of Inl e \<Rightarrow> Inl e | Inr a \<Rightarrow> snd (f a))"
  by (cases m; cases "snd m") (auto simp: seq_def split: prod.splits)

lemma seq_emit: "seq (emit l) f = (l @ fst (f ()), snd (f ()))"
  by (simp add: seq_def emit_def split: prod.splits)

lemma seq_ret: "seq (ret a) f = f a"
  by (simp add: seq_def ret_def split: prod.splits)

lemma seq_raise: "seq (raise e) f = raise e"
  by (simp add: seq_def raise_def)

lemma series_cmp_Inr:
  "series_cmp cmp col x = Inr bs \<Longrightarrow>
   length bs = length col \<and> (\<forall>j<length col. cmp (col ! j) x = Inr (bs ! j))"
proof (induction col arbitrary: bs)
  case Nil
  then show ?case by simp
next
  case (Cons v vs)
  from Cons.prems obtain b bs' where b: "cmp v x = Inr b" and bs': "series_cmp cmp vs x = Inr bs'"
    and bs: "bs = b # bs'"
    by (auto split: sum.splits)
  from Cons.IH [OF bs'] have ih: "length bs' = length vs"
    "\<forall>j<length vs. cmp (vs ! j) x = Inr (bs' ! j)" by auto
  show ?case
  proof (intro conjI allI impI)
    show "length bs = length (v # vs)" using ih bs by simp
  next
    fix j assume "j < length (v # vs)"
    then show "cmp ((v # vs) ! j) x = Inr (bs ! j)"
      using ih b bs by (cases j) auto
  qed
qed

lemma series_cmp_total:
  "\<forall>v \<in> set col. \<exists>b. cmp v x = Inr b \<Longrightarrow> \<exists>bs. series_cmp cmp col x = Inr bs"
  by (induction col) (auto split: sum.splits)

lemma cell_lt_Inr: "cell_lt v x = Inr b \<Longrightarrow> b = (\<exists>a. v = Num a \<and> a < x)"
  by (cases v) auto

lemma cell_gt_Inr: "cell_gt v x = Inr b \<Longrightarrow> b = (\<exists>a. v = Num a \<and> x < a)"
  by (cases v) auto

lemma invalid_hours_mask_Inr:
  assumes "invalid_hours_mask col = Inr m"
  shows "length m = length col"
    and "j < length col \<Longrightarrow>
         m ! j \<longleftrightarrow> (\<exists>a. col ! j = Num a \<and> (a < MIN_EST_HOURS \<or> MAX_EST_HOURS < a))"
proof -
  from assms obtain lo hi where lo: "series_cmp cell_lt col MIN_EST_HOURS = Inr lo"
    and hi: "series_cmp cell_gt col MAX_EST_HOURS = Inr hi"
    and m: "m = map (\<lambda>p. fst p \<or> snd p) (zip lo hi)"
    by (auto simp: invalid_hours_mask_def split: sum.splits)
  note l = series_cmp_Inr [OF lo] and h = series_cmp_Inr [OF hi]
  show "length m = length col" using l h m by simp
  assume j: "j < length col"
  then have "cell_lt (col ! j) MIN_EST_HOURS = Inr (lo ! j)" "cell_gt (col ! j) MAX_EST_HOURS = Inr (hi ! j)"
    using l h by auto
  then have "lo ! j = (\<exists>a. col ! j = Num a \<and> a < MIN_EST_HOURS)"
    "hi ! j = (\<exists>a. col ! j = Num a \<and> MAX_EST_HOURS < a)"
    by (auto dest: cell_lt_Inr cell_gt_Inr)
  moreover have "m ! j = (lo ! j \<or> hi ! j)" using j l h m by simp
  ultimately show "m ! j \<longleftrightarrow> (\<exists>a. col ! j = Num a \<and> (a < MIN_EST_HOURS \<or> MAX_EST_HOURS < a))"
    by auto
qed

lemma cell_lt_total: "\<forall>s. v \<noteq> Str s \<Longrightarrow> \<exists>b. cell_lt v x = Inr b"
  by (cases v) auto

lemma cell_gt_total: "\<forall>s. v \<noteq> Str s \<Longrightarrow> \<exists>b. cell_gt v x = Inr b"
  by (cases v) auto

lemma invalid_hours_mask_total:
  assumes "\<forall>v \<in> set col. \<forall>s. v \<noteq> Str s"
  shows "\<exists>m. invalid_hours_mask col = Inr m"
proof -
  have "\<forall>v \<in> set col. \<exists>b. cell_lt v MIN_EST_HOURS = Inr b"
    using assms cell_lt_total by blast
  then obtain lo where lo: "series_cmp cell_lt col MIN_EST_HOURS = Inr lo"
    using series_cmp_total by blast
  have "\<forall>v \<in> set col. \<exists>b. cell_gt v MAX_EST_HOURS = Inr b"
    using assms cell_gt_total by blast
  then obtain hi where hi: "series_cmp cell_gt col MAX_EST_HOURS = Inr hi"
    using series_cmp_total by blast
  show ?thesis by (simp add: invalid_hours_mask_def lo hi)
qed

lemma length_column_at: "length (column_at df i) = len_df df"
  by (simp add: column_at_def len_df_def)

lemma nth_column_at: "j < len_df df \<Longrightarrow> column_at df i ! j = rows df ! j ! i"
  by (simp add: column_at_def len_df_def)

lemma invalid_hours_Inr:
  assumes "invalid_hours df i = Inr sel"
  shows "set sel = {(j, rows df ! j) | j. j < len_df df \<and>
            (\<exists>a. rows df ! j ! i = Num a \<and> (a < MIN_EST_HOURS \<or> MAX_EST_HOURS < a))}"
    and "length sel = card {j. j < len_df df \<and>
            (\<exists>a. rows df ! j ! i = Num a \<and> (a < MIN_EST_HOURS \<or> MAX_EST_HOURS < a))}"
proof -
  from assms obtain m where m: "invalid_hours_mask (column_at df i) = Inr m"
    and sel: "sel = select m (rows df)"
    by (auto simp: invalid_hours_def split: sum.splits)
  have len: "length m = length (rows df)"
    using invalid_hours_mask_Inr(1) [OF m] by (simp add: length_column_at len_df_def)
  have nth: "\<And>j. j < len_df df \<Longrightarrow>
      m ! j \<longleftrightarrow> (\<exists>a. rows df ! j ! i = Num a \<and> (a < MIN_EST_HOURS \<or> MAX_EST_HOURS < a))"
    using invalid_hours_mask_Inr(2) [OF m] by (simp add: length_column_at nth_column_at)
  show "set sel = {(j, rows df ! j) | j. j < len_df df \<and>
            (\<exists>a. rows df ! j ! i = Num a \<and> (a < MIN_EST_HOURS \<or> MAX_EST_HOURS < a))}"
    unfolding sel set_select [OF len] using nth by (auto simp: len_df_def)
  have "{j. j < length m \<and> m ! j} = {j. j < len_df df \<and>
            (\<exists>a. rows df ! j ! i = Num a \<and> (a < MIN_EST_HOURS \<or> MAX_EST_HOURS < a))}"
    using nth len by (auto simp: len_df_def)
  then show "length sel = card {j. j < len_df df \<and>
            (\<exists>a. rows df ! j ! i = Num a \<and> (a < MIN_EST_HOURS \<or> MAX_EST_HOURS < a))}"
    unfolding sel length_select [OF len] mask_sum_card by simp
qed

subsection \<open>Float rounding\<close>

lemma round_half_even_le_ceiling: "round_half_even y \<le> \<lceil>y\<rceil>"
  by (auto simp: round_half_even_def Let_def) linarith+

lemma round_half_even_nonneg: "0 \<le> y \<Longrightarrow> 0 \<le> round_half_even y"
  by (auto simp: round_half_even_def Let_def)

lemma round_half_even_le: "y \<le> of_int n \<Longrightarrow> round_half_even y \<le> n"
  using round_half_even_le_ceiling [of y] by (meson ceiling_le order_trans)

lemma fl_zero: "fl 0 = 0"
  by (simp add: fl_def)

lemma fl_nonneg: "0 \<le> x \<Longrightarrow> 0 \<le> fl x"
  by (auto simp: fl_def Let_def intro!: mult_nonneg_nonneg round_half_even_nonneg)

lemma fl_nonpos: "x \<le> 0 \<Longrightarrow> fl x \<le> 0"
proof (cases "x = 0")
  case True
  then show ?thesis by (simp add: fl_zero)
next
  case False
  assume "x \<le> 0"
  then have neg: "x < 0" using False by simp
  define e where "e = max (ilog2 \<bar>x\<bar> - 52) (- 1074)"
  have "0 \<le> round_half_even (\<bar>x\<bar> / 2 powi e)"
    by (intro round_half_even_nonneg) simp
  then have "0 \<le> of_int (round_half_even (\<bar>x\<bar> / 2 powi e)) * (2::real) powi e"
    by (intro mult_nonneg_nonneg) simp_all
  then show ?thesis using neg False by (simp add: fl_def Let_def e_def)
qed

lemma ilog2_le_6:
  assumes "0 < a" and "a \<le> 100"
  shows "ilog2 a \<le> 6"
proof (cases "1 \<le> a")
  case True
  have "\<lfloor>a\<rfloor> \<le> 100" using assms(2) by (simp add: floor_le_iff)
  then have "\<lfloor>a\<rfloor> < 2 ^ nat 7" by simp
  then have "bitlen \<lfloor>a\<rfloor> \<le> 7" by (simp add: bitlen_le_iff_power)
  then show ?thesis using True by (simp add: ilog2_def)
next
  case False
  then show ?thesis using bitlen_nonneg [of "\<lceil>1 / a\<rceil> - 1"] by (simp add: ilog2_def)
qed

lemma fl_le_100:
  assumes "x \<le> 100"
  shows "fl x \<le> 100"
proof (cases "0 < x")
  case False
  then show ?thesis using fl_nonpos [of x] by simp
next
  case True
  define e where "e = max (ilog2 \<bar>x\<bar> - 52) (- 1074)"
  define k where "k = nat (- e)"
  have "ilog2 \<bar>x\<bar> \<le> 6" using ilog2_le_6 [of "\<bar>x\<bar>"] True assms by simp
  then have e_neg: "e < 0" by (simp add: e_def)
  then have pw: "(2::real) powi e = 1 / 2 ^ k"
    by (simp add: power_int_def k_def field_simps)
  have "\<bar>x\<bar> / 2 powi e = x * 2 ^ k" using True by (simp add: pw)
  also have "\<dots> \<le> 100 * 2 ^ k" using assms by simp
  also have "\<dots> = of_int (100 * 2 ^ k)" by simp
  finally have "round_half_even (\<bar>x\<bar> / 2 powi e) \<le> 100 * 2 ^ k"
    by (rule round_half_even_le)
  then have "real_of_int (round_half_even (\<bar>x\<bar> / 2 powi e)) \<le> 100 * 2 ^ k"
    by (metis of_int_le_iff of_int_mult of_int_numeral of_int_power)
  then have "of_int (round_half_even (\<bar>x\<bar> / 2 powi e)) * 2 powi e \<le> (100::real)"
    by (simp add: pw field_simps)
  then show ?thesis using True by (simp add: fl_def Let_def e_def)
qed

lemma fl_100: "fl 100 = 100"
  by code_simp

lemma fmt1_bounds: "0 \<le> x \<Longrightarrow> x \<le> 100 \<Longrightarrow> 0 \<le> fmt1 x \<and> fmt1 x \<le> 100"
proof -
  assume a: "0 \<le> x" "x \<le> 100"
  have "0 \<le> round_half_even (x * 10)" using a by (intro round_half_even_nonneg) simp
  moreover have "round_half_even (x * 10) \<le> 1000"
    using a by (intro round_half_even_le) simp
  ultimately show ?thesis by (simp add: fmt1_def)
qed

lemma fmt1_100: "fmt1 100 = 100"
  by code_simp

lemma float_div_nonneg: "0 \<le> a \<Longrightarrow> 0 \<le> b \<Longrightarrow> 0 \<le> float_div a b"
  by (simp add: float_div_def fl_nonneg)

lemma float_mul_nonneg: "0 \<le> a \<Longrightarrow> 0 \<le> b \<Longrightarrow> 0 \<le> float_mul a b"
  by (simp add: float_mul_def fl_nonneg)

lemma float_div_zero: "float_div 0 b = 0"
  by (simp add: float_div_def fl_zero)

lemma float_mul_zero: "float_mul 0 b = 0"
  by (simp add: float_mul_def fl_zero)

lemma float_sub_le_100: "s \<le> 100 \<Longrightarrow> 0 \<le> d \<Longrightarrow> float_sub s d \<le> 100"
  by (simp add: float_sub_def fl_le_100)

lemma float_sub_zero: "float_sub 100 0 = 100"
  by (simp add: float_sub_def fl_100)

section \<open>Faults inside the stages\<close>

text \<open>
  C1, at a table of no rows with a Phase column (a CSV file that holds the header line
  only): step 6 logs its header and raises ZeroDivisionError at the division by
  \<^verbatim>\<open>len(df)\<close>; no score is logged. The same holds with an Est_Hours column.
\<close>

theorem C1_zero_rows_scorer_raises:
  "calculate_data_quality_score \<lparr>columns = [(''Phase'', ''object'')], rows = []\<rparr> =
     ([(INFO, bar 70), (INFO, Text ''STEP 6: DATA QUALITY SCORE (Advanced)''), (INFO, bar 70)],
      Inl ZeroDivisionError)
   \<and> calculate_data_quality_score \<lparr>columns = [(''Est_Hours'', ''float64'')], rows = []\<rparr> =
     ([(INFO, bar 70), (INFO, Text ''STEP 6: DATA QUALITY SCORE (Advanced)''), (INFO, bar 70)],
      Inl ZeroDivisionError)"
  by code_simp

text \<open>
  C2, at a loaded table with an Est_Hours column, no Story_ID column and one row whose
  hours are out of range: step 5 raises KeyError at \<^verbatim>\<open>row['Story_ID']\<close>, the handler of
  \<^verbatim>\<open>main\<close> logs it as an unexpected error, the process exits with status 1 and step 6
  never starts.
\<close>

theorem C2_stage_fault_aborts_run:
  "snd (main (Inr \<lparr>columns = [(''Est_Hours'', ''float64'')], rows = [[Num 150]]\<rparr>)) = 1
   \<and> last (fst (main (Inr \<lparr>columns = [(''Est_Hours'', ''float64'')], rows = [[Num 150]]\<rparr>)))
       = (CRITICAL, Unexpected (KeyError ''Story_ID''))
   \<and> (INFO, Text ''STEP 5: BUSINESS LOGIC VALIDATION'')
       \<in> set (fst (main (Inr \<lparr>columns = [(''Est_Hours'', ''float64'')], rows = [[Num 150]]\<rparr>)))
   \<and> (INFO, Text ''STEP 6: DATA QUALITY SCORE (Advanced)'')
       \<notin> set (fst (main (Inr \<lparr>columns = [(''Est_Hours'', ''float64'')], rows = [[Num 150]]\<rparr>)))"
  by code_simp

section \<open>Step 5: the range check\<close>

lemma log_invalid_rows_ok:
  assumes "index_of ''Story_ID'' (col_names df) = Some k" and "index_of c (col_names df) = Some i"
  shows "log_invalid_rows c df sel =
           (map (\<lambda>ir. (WARNING, InvalidRow c (fst ir) (snd ir ! k) (snd ir ! i))) sel, Inr ())"
  using assms by (induction sel) (auto simp: row_get_def seq_def emit_def ret_def)

lemma log_invalid_rows_form:
  "r \<in> set (fst (log_invalid_rows c df sel)) \<Longrightarrow>
   \<exists>j sid v. r = (WARNING, InvalidRow c j sid v) \<and> j \<in> fst ` set sel"
proof (induction sel)
  case Nil
  then show ?case by (simp add: ret_def)
next
  case (Cons ir sel)
  obtain idx row where ir: "ir = (idx, row)" by (cases ir)
  show ?case
  proof (cases "row_get df row ''Story_ID''")
    case (Inl e)
    then show ?thesis using Cons.prems by (simp add: ir raise_def)
  next
    case sid: (Inr story_id)
    show ?thesis
    proof (cases "row_get df row c")
      case (Inl e)
      then show ?thesis using Cons.prems sid by (simp add: ir raise_def)
    next
      case (Inr v)
      then have "r = (WARNING, InvalidRow c idx story_id v) \<or> r \<in> set (fst (log_invalid_rows c df sel))"
        using Cons.prems sid by (simp add: ir seq_emit)
      then show ?thesis using Cons.IH by (auto simp: ir)
    qed
  qed
qed

lemma report_invalid_form:
  assumes "r \<in> set (fst (report_invalid c ok df sel b))"
  shows "r = (WARNING, InvalidCount c (length sel)) \<or> r = (INFO, Text ok) \<or>
         (\<exists>j sid v. r = (WARNING, InvalidRow c j sid v) \<and> j \<in> fst ` set sel)"
proof (cases "sel = []")
  case True
  then show ?thesis using assms by (simp add: report_invalid_def seq_emit ret_def)
next
  case False
  then have "r = (WARNING, InvalidCount c (length sel)) \<or>
             r \<in> set (fst (log_invalid_rows c df sel))"
    using assms by (auto simp: report_invalid_def seq_emit fst_seq ret_def split: sum.splits)
  then show ?thesis using log_invalid_rows_form [of r c df sel] by blast
qed

lemma report_invalid_ok:
  assumes "index_of ''Story_ID'' (col_names df) = Some k" and "index_of c (col_names df) = Some i"
  shows "report_invalid c ok df sel b =
     (if sel \<noteq> [] then
        ((WARNING, InvalidCount c (length sel))
           # map (\<lambda>ir. (WARNING, InvalidRow c (fst ir) (snd ir ! k) (snd ir ! i))) sel, Inr True)
      else ([(INFO, Text ok)], Inr b))"
  by (simp add: report_invalid_def log_invalid_rows_ok [OF assms] seq_def emit_def ret_def)

lemma check_enum_form:
  "r \<in> set (fst (check_enum c df b)) \<Longrightarrow>
   (\<exists>t. r = (INFO, Text t)) \<or> (\<exists>n. r = (WARNING, InvalidCount c n)) \<or>
   (\<exists>j sid v. r = (WARNING, InvalidRow c j sid v))"
  by (auto simp: check_enum_def seq_emit ret_def dest!: report_invalid_form split: option.splits)

lemma vbl_hours_records:
  "(lv, InvalidRow ''Est_Hours'' j sid v) \<in> set (fst (validate_business_logic df))
   \<longleftrightarrow> (lv, InvalidRow ''Est_Hours'' j sid v) \<in> set (fst (check_est_hours df False))"
proof -
  have no: "\<And>c b. c \<noteq> ''Est_Hours'' \<Longrightarrow>
      (lv, InvalidRow ''Est_Hours'' j sid v) \<notin> set (fst (check_enum c df b))"
    by (auto dest: check_enum_form)
  have p: "\<And>b. (lv, InvalidRow ''Est_Hours'' j sid v) \<notin> set (fst (check_enum ''Phase'' df b))"
    by (rule no) simp
  have t: "\<And>b. (lv, InvalidRow ''Est_Hours'' j sid v) \<notin> set (fst (check_enum ''Type'' df b))"
    by (rule no) simp
  show ?thesis
    by (auto simp: validate_business_logic_def fst_seq header_def emit_def bar_def p t
        split: sum.splits)
qed

lemma check_est_hours_fst:
  assumes "index_of ''Est_Hours'' (col_names df) = Some i"
  shows "fst (check_est_hours df b) =
     (INFO, Text ''Checking Est_Hours range...'') #
       (case invalid_hours df i of
          Inl e \<Rightarrow> []
        | Inr sel \<Rightarrow> fst (report_invalid ''Est_Hours''
                         ''  [OK] All Est_Hours values are in valid range'' df sel b))"
  using assms by (simp add: check_est_hours_def seq_emit raise_def split: sum.splits)


lemma check_est_hours_row_logged:
  assumes hours: "index_of ''Est_Hours'' (col_names df) = Some i"
      and key: "index_of ''Story_ID'' (col_names df) = Some k"
      and sel: "invalid_hours df i = Inr sel"
      and j: "j < len_df df"
  shows "(WARNING, InvalidRow ''Est_Hours'' j (rows df ! j ! k) (rows df ! j ! i))
            \<in> set (fst (check_est_hours df b))
         \<longleftrightarrow> (j, rows df ! j) \<in> set sel"
proof -
  have fst_eq: "\<And>jr. jr \<in> set sel \<Longrightarrow> snd jr = rows df ! fst jr"
    using invalid_hours_Inr(1) [OF sel] by auto
  have "(WARNING, InvalidRow ''Est_Hours'' j (rows df ! j ! k) (rows df ! j ! i))
            \<in> set (fst (check_est_hours df b))
        \<longleftrightarrow> (\<exists>jr \<in> set sel. fst jr = j \<and> snd jr ! k = rows df ! j ! k \<and> snd jr ! i = rows df ! j ! i)"
    by (auto simp: check_est_hours_fst [OF hours] sel report_invalid_ok [OF key hours])
  also have "\<dots> \<longleftrightarrow> (j, rows df ! j) \<in> set sel"
    using fst_eq by (metis fst_conv prod.collapse snd_conv)
  finally show ?thesis .
qed

text \<open>
  C5: in a table with an Est_Hours column that holds numbers or missing values, the
  selection \<^verbatim>\<open>invalid_hours\<close> of step 5 is computed, and the row at index \<open>j\<close> is in
  it exactly when its Est_Hours value is a number strictly below 0.5 or strictly above
  100; a row whose value is exactly 0.5 or exactly 100 is not in it. When the table also
  has the Story_ID column, the warning of step 5 for row \<open>j\<close> is in the log exactly
  when the row is in the selection.
\<close>

theorem C5_range_check:
  assumes hours: "index_of ''Est_Hours'' (col_names df) = Some i"
      and numeric: "\<forall>v \<in> set (column_at df i). \<forall>s. v \<noteq> Str s"
      and j: "j < len_df df"
  shows "MIN_EST_HOURS = 1 / 2 \<and> MAX_EST_HOURS = 100 \<and>
     (\<exists>sel. invalid_hours df i = Inr sel \<and>
        ((j, rows df ! j) \<in> set sel \<longleftrightarrow>
           (\<exists>x. rows df ! j ! i = Num x \<and> (x < MIN_EST_HOURS \<or> MAX_EST_HOURS < x))) \<and>
        (rows df ! j ! i = Num MIN_EST_HOURS \<or> rows df ! j ! i = Num MAX_EST_HOURS \<longrightarrow>
           (j, rows df ! j) \<notin> set sel) \<and>
        (\<forall>k. index_of ''Story_ID'' (col_names df) = Some k \<longrightarrow>
           ((WARNING, InvalidRow ''Est_Hours'' j (rows df ! j ! k) (rows df ! j ! i))
               \<in> set (fst (validate_business_logic df))
            \<longleftrightarrow> (\<exists>x. rows df ! j ! i = Num x \<and> (x < MIN_EST_HOURS \<or> MAX_EST_HOURS < x)))))"
proof -
  from invalid_hours_mask_total [OF numeric]
  obtain sel where sel: "invalid_hours df i = Inr sel"
    by (auto simp: invalid_hours_def)
  have flagged: "(j, rows df ! j) \<in> set sel \<longleftrightarrow>
      (\<exists>x. rows df ! j ! i = Num x \<and> (x < MIN_EST_HOURS \<or> MAX_EST_HOURS < x))"
    using invalid_hours_Inr(1) [OF sel] j by auto
  have bounds: "rows df ! j ! i = Num MIN_EST_HOURS \<or> rows df ! j ! i = Num MAX_EST_HOURS \<longrightarrow>
      (j, rows df ! j) \<notin> set sel"
    unfolding flagged by (auto simp: MIN_EST_HOURS_def MAX_EST_HOURS_def)
  have logged: "\<forall>k. index_of ''Story_ID'' (col_names df) = Some k \<longrightarrow>
      ((WARNING, InvalidRow ''Est_Hours'' j (rows df ! j ! k) (rows df ! j ! i))
          \<in> set (fst (validate_business_logic df))
       \<longleftrightarrow> (\<exists>x. rows df ! j ! i = Num x \<and> (x < MIN_EST_HOURS \<or> MAX_EST_HOURS < x)))"
    using check_est_hours_row_logged [OF hours _ sel j] flagged
    by (simp add: vbl_hours_records)
  show ?thesis
    using sel flagged bounds logged by (simp add: MIN_EST_HOURS_def MAX_EST_HOURS_def)
qed

text \<open>
  C10: in a table with an Est_Hours column, a row whose Est_Hours value is missing
  satisfies neither comparison (both give False), is not in the selection of step 5
  whenever that selection is computed, has no range warning in the log of step 5, and is
  not among the rows that the invalid-hours count of step 6 counts.
\<close>

theorem C10_null_hours_not_flagged:
  assumes hours: "index_of ''Est_Hours'' (col_names df) = Some i"
      and j: "j < len_df df"
      and null: "rows df ! j ! i = Null"
  shows "cell_lt (rows df ! j ! i) MIN_EST_HOURS = Inr False \<and>
         cell_gt (rows df ! j ! i) MAX_EST_HOURS = Inr False \<and>
         (\<forall>sel. invalid_hours df i = Inr sel \<longrightarrow> j \<notin> fst ` set sel) \<and>
         (\<forall>lv sid v. (lv, InvalidRow ''Est_Hours'' j sid v)
                        \<notin> set (fst (validate_business_logic df))) \<and>
         (\<forall>n. invalid_hours_count df i = Inr n \<longrightarrow>
            n = card {k. k < len_df df \<and> k \<noteq> j \<and>
                  (\<exists>x. rows df ! k ! i = Num x \<and> (x < MIN_EST_HOURS \<or> MAX_EST_HOURS < x))})"
proof -
  have not_sel: "j \<notin> fst ` set sel" if "invalid_hours df i = Inr sel" for sel
    using invalid_hours_Inr(1) [OF that] null by auto
  have not_logged: "(lv, InvalidRow ''Est_Hours'' j sid v) \<notin> set (fst (validate_business_logic df))"
    for lv sid v
  proof (cases "invalid_hours df i")
    case (Inl e)
    then show ?thesis
      by (simp add: vbl_hours_records check_est_hours_fst [OF hours])
  next
    case (Inr sel)
    then show ?thesis
      using not_sel [OF Inr]
      by (auto simp: vbl_hours_records check_est_hours_fst [OF hours] dest: report_invalid_form)
  qed
  have count: "n = card {k. k < len_df df \<and> k \<noteq> j \<and>
      (\<exists>x. rows df ! k ! i = Num x \<and> (x < MIN_EST_HOURS \<or> MAX_EST_HOURS < x))}"
    if "invalid_hours_count df i = Inr n" for n
  proof -
    from that obtain sel where sel: "invalid_hours df i = Inr sel" and n: "n = length sel"
      by (auto simp: invalid_hours_count_def split: sum.splits)
    have "{k. k < len_df df \<and> (\<exists>x. rows df ! k ! i = Num x \<and> (x < MIN_EST_HOURS \<or> MAX_EST_HOURS < x))}
        = {k. k < len_df df \<and> k \<noteq> j \<and>
             (\<exists>x. rows df ! k ! i = Num x \<and> (x < MIN_EST_HOURS \<or> MAX_EST_HOURS < x))}"
      using null by auto
    then show ?thesis using invalid_hours_Inr(2) [OF sel] n by simp
  qed
  show ?thesis using not_sel not_logged count null by simp
qed

theorem C5_range_check_witness:
  "index_of ''Est_Hours''
     (col_names \<lparr>columns = [(''Story_ID'', ''object''), (''Est_Hours'', ''float64'')],
                 rows = [[Str ''S1'', Num 100], [Str ''S2'', Num 150]]\<rparr>) = Some 1
   \<and> (\<exists>sel. invalid_hours \<lparr>columns = [(''Story_ID'', ''object''), (''Est_Hours'', ''float64'')],
                 rows = [[Str ''S1'', Num 100], [Str ''S2'', Num 150]]\<rparr> 1 = Inr sel
         \<and> (0, [Str ''S1'', Num 100]) \<notin> set sel
         \<and> (1, [Str ''S2'', Num 150]) \<in> set sel)"
proof -
  let ?df = "\<lparr>columns = [(''Story_ID'', ''object''), (''Est_Hours'', ''float64'')],
               rows = [[Str ''S1'', Num 100], [Str ''S2'', Num 150]]\<rparr>"
  have h: "index_of ''Est_Hours'' (col_names ?df) = Some 1"
    by (simp add: col_names_def)
  have n: "\<forall>v \<in> set (column_at ?df 1). \<forall>s. v \<noteq> Str s"
    by (simp add: column_at_def)
  have j0: "0 < len_df ?df" and j1: "1 < len_df ?df"
    by (simp_all add: len_df_def)
  from C5_range_check [OF h n j0] obtain sel where sel: "invalid_hours ?df 1 = Inr sel"
    and f0: "rows ?df ! 0 ! 1 = Num MIN_EST_HOURS \<or> rows ?df ! 0 ! 1 = Num MAX_EST_HOURS \<longrightarrow>
             (0, rows ?df ! 0) \<notin> set sel"
    by blast
  from C5_range_check [OF h n j1] sel
  have f1: "(1, rows ?df ! 1) \<in> set sel \<longleftrightarrow>
      (\<exists>x. rows ?df ! 1 ! 1 = Num x \<and> (x < MIN_EST_HOURS \<or> MAX_EST_HOURS < x))"
    by auto
  have r0: "(0, [Str ''S1'', Num 100]) \<notin> set sel"
    using f0 by (simp add: MAX_EST_HOURS_def)
  have r1: "(1, [Str ''S2'', Num 150]) \<in> set sel"
    using f1 by (simp add: MAX_EST_HOURS_def)
  show ?thesis using h sel r0 r1 by blast
qed

theorem C10_null_hours_not_flagged_witness:
  "invalid_hours_count \<lparr>columns = [(''Est_Hours'', ''float64'')],
                         rows = [[Null], [Num 150]]\<rparr> 0 = Inr 1
   \<and> (WARNING, InvalidRow ''Est_Hours'' 0 Null Null)
       \<notin> set (fst (validate_business_logic
            \<lparr>columns = [(''Est_Hours'', ''float64'')], rows = [[Null], [Num 150]]\<rparr>))"
proof -
  let ?df = "\<lparr>columns = [(''Est_Hours'', ''float64'')], rows = [[Null], [Num 150]]\<rparr>"
  have h: "index_of ''Est_Hours'' (col_names ?df) = Some 0"
    by (simp add: col_names_def)
  have j: "0 < len_df ?df" by (simp add: len_df_def)
  have null: "rows ?df ! 0 ! 0 = Null" by simp
  have c: "invalid_hours_count ?df 0 = Inr 1"
    by (simp add: invalid_hours_count_def invalid_hours_def invalid_hours_mask_def column_at_def
        select_def MIN_EST_HOURS_def MAX_EST_HOURS_def)
  show ?thesis using C10_null_hours_not_flagged [OF h j null] c by simp
qed

section \<open>Step 2: missing values\<close>

lemma bar_neq_text: "t \<noteq> [] \<Longrightarrow> hd t \<noteq> CHR ''='' \<Longrightarrow> bar n \<noteq> Text t"
  by (cases n) (auto simp: bar_def)

lemma text_neq_bar: "t \<noteq> [] \<Longrightarrow> hd t \<noteq> CHR ''='' \<Longrightarrow> Text t \<noteq> bar n"
  using bar_neq_text [of t n] by auto

lemma null_count_card:
  "null_count df i = card {j. j < len_df df \<and> rows df ! j ! i = Null}"
proof -
  have "{j. j < length (map isnull (column_at df i)) \<and> map isnull (column_at df i) ! j}
      = {j. j < len_df df \<and> rows df ! j ! i = Null}"
    by (auto simp: length_column_at nth_column_at isnull_def)
  then show ?thesis by (simp add: null_count_def mask_sum_card)
qed

lemma null_count_pos_iff: "0 < null_count df i \<longleftrightarrow> Null \<in> set (column_at df i)"
  by (auto simp: null_count_def mask_sum_def filter_empty_conv isnull_def)










section \<open>Step 6: the duplicate deduction\<close>

lemma length_duplicated_first: "length (duplicated_first xs) = length xs"
  by (simp add: duplicated_first_def length_dup_scan)

lemma mask_sum_duplicated_first:
  "mask_sum (duplicated_first xs) = card {j. j < length xs \<and> (\<exists>k<j. xs ! k = xs ! j)}"
proof -
  have "{j. j < length (duplicated_first xs) \<and> duplicated_first xs ! j}
      = {j. j < length xs \<and> (\<exists>k<j. xs ! k = xs ! j)}"
    by (auto simp: length_duplicated_first nth_duplicated_first)
  then show ?thesis by (simp add: mask_sum_card)
qed

lemma mask_sum_duplicated_all:
  "mask_sum (duplicated_all xs)
     = card {j. j < length xs \<and> (\<exists>k<length xs. k \<noteq> j \<and> xs ! k = xs ! j)}"
proof -
  have "{j. j < length (duplicated_all xs) \<and> duplicated_all xs ! j}
      = {j. j < length xs \<and> (\<exists>k<length xs. k \<noteq> j \<and> xs ! k = xs ! j)}"
    by (auto simp: length_duplicated_all nth_duplicated_all)
  then show ?thesis by (simp add: mask_sum_card)
qed

lemma duplicated_first_le_all: "mask_sum (duplicated_first xs) \<le> mask_sum (duplicated_all xs)"
proof -
  have "{j. j < length xs \<and> (\<exists>k<j. xs ! k = xs ! j)}
      \<subseteq> {j. j < length xs \<and> (\<exists>k<length xs. k \<noteq> j \<and> xs ! k = xs ! j)}"
    by auto (metis less_trans nat_neq_iff)
  then show ?thesis
    unfolding mask_sum_duplicated_first mask_sum_duplicated_all
    by (intro card_mono) auto
qed

text \<open>
  C8: the duplicate deduction of step 6 is 0 on a table of no rows and otherwise
  \<open>min 15 ((count / row_count * 100) / 6.67)\<close>, each operation a float operation, where
  \<open>count\<close> is the number of rows that have an identical row before them; step 3 counts
  the rows that have an identical row anywhere else. The first count never exceeds the
  second, and on a table of two identical rows the first is 1 and the second is 2.
\<close>

theorem C8_scorer_duplicate_count:
  "dupe_deduction df =
     (if len_df df = 0 then 0
      else min 15 (float_div
                     (float_mul (float_div (real (mask_sum (df_duplicated df)))
                                           (real (len_df df))) 100)
                     (fl 6.67))) \<and>
   (columns df \<noteq> [] \<longrightarrow>
      mask_sum (df_duplicated df)
        = card {j. j < len_df df \<and> (\<exists>k<j. rows df ! k = rows df ! j)} \<and>
      mask_sum (df_duplicated_all df)
        = card {j. j < len_df df \<and> (\<exists>k<len_df df. k \<noteq> j \<and> rows df ! k = rows df ! j)}) \<and>
   mask_sum (df_duplicated df) \<le> mask_sum (df_duplicated_all df) \<and>
   mask_sum (df_duplicated \<lparr>columns = [(''Story_ID'', ''object'')],
                             rows = [[Str ''S1''], [Str ''S1'']]\<rparr>) = 1 \<and>
   mask_sum (df_duplicated_all \<lparr>columns = [(''Story_ID'', ''object'')],
                                 rows = [[Str ''S1''], [Str ''S1'']]\<rparr>) = 2"
proof -
  have ded: "dupe_deduction df =
     (if len_df df = 0 then 0
      else min 15 (float_div
                     (float_mul (float_div (real (mask_sum (df_duplicated df)))
                                           (real (len_df df))) 100)
                     (fl 6.67)))"
    by (simp add: dupe_deduction_def float_div_zero)
  have counts: "columns df \<noteq> [] \<longrightarrow>
      mask_sum (df_duplicated df)
        = card {j. j < len_df df \<and> (\<exists>k<j. rows df ! k = rows df ! j)} \<and>
      mask_sum (df_duplicated_all df)
        = card {j. j < len_df df \<and> (\<exists>k<len_df df. k \<noteq> j \<and> rows df ! k = rows df ! j)}"
  proof (cases "rows df = []")
    case True
    then show ?thesis
      by (simp add: df_duplicated_def df_duplicated_all_def df_empty_def len_df_def mask_sum_def)
  next
    case False
    then show ?thesis
      by (simp add: df_duplicated_def df_duplicated_all_def df_empty_def len_df_def
          mask_sum_duplicated_first mask_sum_duplicated_all)
  qed
  have le: "mask_sum (df_duplicated df) \<le> mask_sum (df_duplicated_all df)"
    by (simp add: df_duplicated_def df_duplicated_all_def duplicated_first_le_all)
  have pair1: "mask_sum (df_duplicated \<lparr>columns = [(''Story_ID'', ''object'')],
                             rows = [[Str ''S1''], [Str ''S1'']]\<rparr>) = 1"
    by (simp add: df_duplicated_def df_empty_def duplicated_first_def mask_sum_def)
  have pair2: "mask_sum (df_duplicated_all \<lparr>columns = [(''Story_ID'', ''object'')],
                                 rows = [[Str ''S1''], [Str ''S1'']]\<rparr>) = 2"
    by (simp add: df_duplicated_all_def df_empty_def duplicated_all_def mask_sum_def)
  show ?thesis using ded counts le pair1 pair2 by blast
qed

theorem C8_scorer_duplicate_count_witness:
  "dupe_deduction \<lparr>columns = [(''Story_ID'', ''object'')],
                    rows = [[Str ''S1''], [Str ''S1'']]\<rparr>
     = 4220014643338171 / 562949953421312"
proof -
  let ?df = "\<lparr>columns = [(''Story_ID'', ''object'')], rows = [[Str ''S1''], [Str ''S1'']]\<rparr>"
  have "dupe_deduction ?df =
     (if len_df ?df = 0 then 0
      else min 15 (float_div
                     (float_mul (float_div (real (mask_sum (df_duplicated ?df)))
                                           (real (len_df ?df))) 100)
                     (fl 6.67)))"
    and "mask_sum (df_duplicated ?df) = 1"
    using C8_scorer_duplicate_count [of ?df] by blast+
  then have "dupe_deduction ?df
      = min 15 (float_div (float_mul (float_div 1 2) 100) (fl 6.67))"
    by (simp add: len_df_def)
  also have "\<dots> = 4220014643338171 / 562949953421312"
    by code_simp
  finally show ?thesis .
qed

section \<open>Step 6: the score\<close>

lemma sum_null_counts:
  "sum_list (map snd (null_counts df))
     = sum_list (map (\<lambda>i. card {j. j < len_df df \<and> rows df ! j ! i = Null})
                     [0..<length (columns df)])"
  by (simp add: null_counts_def comp_def null_count_card)

lemma sum_null_counts_clean:
  "(\<forall>i < length (columns df). Null \<notin> set (column_at df i)) \<Longrightarrow>
   sum_list (map snd (null_counts df)) = 0"
  by (auto simp: null_counts_def null_count_pos_iff [symmetric])

lemma null_deduction_nonneg: "0 \<le> null_deduction df"
  by (simp add: null_deduction_def Let_def float_div_nonneg float_mul_nonneg)

lemma null_deduction_clean:
  "(\<forall>i < length (columns df). Null \<notin> set (column_at df i)) \<Longrightarrow> null_deduction df = 0"
  by (simp add: null_deduction_def sum_null_counts_clean Let_def float_div_zero float_mul_zero)

lemma dupe_deduction_nonneg: "0 \<le> dupe_deduction df"
  by (simp add: dupe_deduction_def Let_def float_div_nonneg float_mul_nonneg fl_nonneg)

lemma dupe_deduction_clean: "distinct (rows df) \<Longrightarrow> dupe_deduction df = 0"
proof -
  assume d: "distinct (rows df)"
  have "{j. j < length (rows df) \<and> (\<exists>k<j. rows df ! k = rows df ! j)} = {}"
    using d by (auto simp: distinct_conv_nth)
  then have "mask_sum (duplicated_first (rows df)) = 0"
    by (simp add: mask_sum_duplicated_first)
  then have "mask_sum (df_duplicated df) = 0"
    by (simp add: df_duplicated_def mask_sum_def)
  then show ?thesis by (simp add: dupe_deduction_def float_div_zero float_mul_zero)
qed

lemma invalid_phase_count_card:
  "invalid_phase_count df i
     = card {j. j < len_df df \<and> \<not> isin (rows df ! j ! i) (VALID_VALUES ''Phase'')}"
proof -
  let ?m = "invalid_enum_mask ''Phase'' (column_at df i)"
  have len: "length ?m = length (rows df)"
    by (simp add: invalid_enum_mask_def length_column_at len_df_def)
  have "{j. j < length ?m \<and> ?m ! j}
      = {j. j < len_df df \<and> \<not> isin (rows df ! j ! i) (VALID_VALUES ''Phase'')}"
    by (auto simp: invalid_enum_mask_def length_column_at nth_column_at)
  then show ?thesis
    by (simp add: invalid_phase_count_def length_select [OF len] mask_sum_card)
qed

lemma invalid_phase_count_clean:
  "\<forall>v \<in> set (column_at df i). isin v (VALID_VALUES ''Phase'') \<Longrightarrow> invalid_phase_count df i = 0"
proof -
  assume v: "\<forall>v \<in> set (column_at df i). isin v (VALID_VALUES ''Phase'')"
  have "\<And>j. j < len_df df \<Longrightarrow> isin (rows df ! j ! i) (VALID_VALUES ''Phase'')"
    using v by (metis length_column_at nth_column_at nth_mem)
  then have "{j. j < len_df df \<and> \<not> isin (rows df ! j ! i) (VALID_VALUES ''Phase'')} = {}"
    by auto
  then show ?thesis by (simp add: invalid_phase_count_card)
qed

lemma invalid_hours_count_clean:
  assumes "invalid_hours_count df i = Inr n"
      and "\<forall>v \<in> set (column_at df i). \<exists>x. v = Num x \<and> MIN_EST_HOURS \<le> x \<and> x \<le> MAX_EST_HOURS"
  shows "n = 0"
proof -
  from assms(1) obtain sel where sel: "invalid_hours df i = Inr sel" and n: "n = length sel"
    by (auto simp: invalid_hours_count_def split: sum.splits)
  have "\<And>j. j < len_df df \<Longrightarrow>
      \<exists>x. rows df ! j ! i = Num x \<and> MIN_EST_HOURS \<le> x \<and> x \<le> MAX_EST_HOURS"
    using assms(2) by (metis length_column_at nth_column_at nth_mem)
  then have "{j. j < len_df df \<and>
       (\<exists>a. rows df ! j ! i = Num a \<and> (a < MIN_EST_HOURS \<or> MAX_EST_HOURS < a))} = {}"
    by fastforce
  then show ?thesis using invalid_hours_Inr(2) [OF sel] n by simp
qed

lemma invalid_hours_count_card:
  assumes "invalid_hours_count df i = Inr n"
  shows "n = card {j. j < len_df df \<and>
            (\<exists>x. rows df ! j ! i = Num x \<and> (x < MIN_EST_HOURS \<or> MAX_EST_HOURS < x))}"
proof -
  from assms obtain sel where sel: "invalid_hours df i = Inr sel" and n: "n = length sel"
    by (auto simp: invalid_hours_count_def split: sum.splits)
  show ?thesis using invalid_hours_Inr(2) [OF sel] n by simp
qed

lemma phase_step_Inr:
  assumes "phase_step df st = Inr st'"
  shows "st' = (foldl float_sub (fst st)
                  (case index_of ''Phase'' (col_names df) of
                     None \<Rightarrow> []
                   | Some i \<Rightarrow>
                       [min 15 (float_div
                          (float_mul
                             (float_div
                                (real (card {j. j < len_df df \<and>
                                         \<not> isin (rows df ! j ! i) (VALID_VALUES ''Phase'')}))
                                (real (len_df df))) 100)
                          (fl 6.67))]),
                snd st @ map (Pair ''Invalid Phase'')
                  (case index_of ''Phase'' (col_names df) of
                     None \<Rightarrow> []
                   | Some i \<Rightarrow>
                       [min 15 (float_div
                          (float_mul
                             (float_div
                                (real (card {j. j < len_df df \<and>
                                         \<not> isin (rows df ! j ! i) (VALID_VALUES ''Phase'')}))
                                (real (len_df df))) 100)
                          (fl 6.67))]))"
proof (cases "index_of ''Phase'' (col_names df)")
  case None
  then show ?thesis using assms by (simp add: phase_step_def)
next
  case (Some i)
  then have st': "st' = deduct ''Invalid Phase''
        (min 15 (float_div (float_mul (float_div (real (invalid_phase_count df i))
                                                 (real (len_df df))) 100) (fl 6.67))) st"
    using assms
    by (auto simp: phase_step_def py_true_divide_def Let_def split: sum.splits if_splits)
  show ?thesis
    unfolding st' invalid_phase_count_card by (simp add: Some deduct_def)
qed

lemma hours_step_Inr:
  assumes "hours_step df st = Inr st'"
  shows "st' = (foldl float_sub (fst st)
                  (case index_of ''Est_Hours'' (col_names df) of
                     None \<Rightarrow> []
                   | Some i \<Rightarrow>
                       [min 10 (float_div
                          (float_mul
                             (float_div
                                (real (card {j. j < len_df df \<and>
                                   (\<exists>x. rows df ! j ! i = Num x \<and>
                                        (x < MIN_EST_HOURS \<or> MAX_EST_HOURS < x))}))
                                (real (len_df df))) 100)
                          10)]),
                snd st @ map (Pair ''Invalid Hours'')
                  (case index_of ''Est_Hours'' (col_names df) of
                     None \<Rightarrow> []
                   | Some i \<Rightarrow>
                       [min 10 (float_div
                          (float_mul
                             (float_div
                                (real (card {j. j < len_df df \<and>
                                   (\<exists>x. rows df ! j ! i = Num x \<and>
                                        (x < MIN_EST_HOURS \<or> MAX_EST_HOURS < x))}))
                                (real (len_df df))) 100)
                          10)]))"
proof (cases "index_of ''Est_Hours'' (col_names df)")
  case None
  then show ?thesis using assms by (simp add: hours_step_def)
next
  case (Some i)
  then obtain n where n: "invalid_hours_count df i = Inr n"
    and st': "st' = deduct ''Invalid Hours''
        (min 10 (float_div (float_mul (float_div (real n) (real (len_df df))) 100) 10)) st"
    using assms
    by (auto simp: hours_step_def py_true_divide_def Let_def split: sum.splits if_splits)
  show ?thesis
    using st' invalid_hours_count_card [OF n] by (simp add: Some deduct_def)
qed

lemma foldl_float_sub_le:
  "s \<le> 100 \<Longrightarrow> \<forall>d \<in> set ds. 0 \<le> d \<Longrightarrow> foldl float_sub s ds \<le> 100"
  by (induction ds arbitrary: s) (simp_all add: float_sub_le_100)

lemma foldl_float_sub_zero:
  "\<forall>d \<in> set ds. d = 0 \<Longrightarrow> foldl float_sub 100 ds = 100"
  by (induction ds) (simp_all add: float_sub_zero)

lemma score_log:
  "calculate_data_quality_score df =
     (case deductions_of df of
        Inl e \<Rightarrow> ([(INFO, bar 70), (INFO, Text ''STEP 6: DATA QUALITY SCORE (Advanced)''),
                   (INFO, bar 70)], Inl e)
      | Inr st \<Rightarrow>
          ([(INFO, bar 70), (INFO, Text ''STEP 6: DATA QUALITY SCORE (Advanced)''),
            (INFO, bar 70),
            (INFO, QualityScore (fmt1 (max 0 (fst st)))),
            (INFO, Rating (rating_of (max 0 (fst st)))),
            (INFO, Text ''Deduction Breakdown:'')]
           @ map (\<lambda>cd. (INFO, Deduction (fst cd) (fmt1 (snd cd))))
               (filter (\<lambda>cd. 0 < snd cd) (snd st))
           @ [(INFO, Text ''Result: DATA QUALITY SCORE CALCULATED'')], Inr ()))"
  by (simp add: calculate_data_quality_score_def header_def seq_def emit_def raise_def Let_def
      split: sum.splits)

lemma rating_bands:
  "(rating_of s = ''EXCELLENT'' \<longleftrightarrow> 90 \<le> s) \<and>
   (rating_of s = ''GOOD'' \<longleftrightarrow> 70 \<le> s \<and> s < 90) \<and>
   (rating_of s = ''FAIR (needs work)'' \<longleftrightarrow> 50 \<le> s \<and> s < 70) \<and>
   (rating_of s = ''POOR (critical issues)'' \<longleftrightarrow> s < 50)"
  by (simp add: rating_of_def)

text \<open>
  C4, at a table of eleven rows with distinct Story_ID values, eight of them without
  Est_Hours and three with Est_Hours = 150: the deductions are the floats nearest to
  80/11 and 30/11, the score after the subtractions is \<open>90 - 2 ^ -46\<close>, which is below
  90, so the rating is GOOD, and the score is printed as 90.0.
\<close>

theorem C4_printed_90_rated_good:
  "deductions_of
      \<lparr>columns = [(''Story_ID'', ''object''), (''Est_Hours'', ''float64'')],
       rows = [[Str ''S01'', Null], [Str ''S02'', Null], [Str ''S03'', Null],
               [Str ''S04'', Null], [Str ''S05'', Null], [Str ''S06'', Null],
               [Str ''S07'', Null], [Str ''S08'', Null], [Str ''S09'', Num 150],
               [Str ''S10'', Num 150], [Str ''S11'', Num 150]]\<rparr>
     = Inr (6333186975989759 / 70368744177664,
            [(''NULLs'', 1023545369856931 / 140737488355328), (''Duplicates'', 0),
             (''Invalid Hours'', 6141272219141585 / 2251799813685248)])
   \<and> at_level INFO (take 5 (fst (calculate_data_quality_score
      \<lparr>columns = [(''Story_ID'', ''object''), (''Est_Hours'', ''float64'')],
       rows = [[Str ''S01'', Null], [Str ''S02'', Null], [Str ''S03'', Null],
               [Str ''S04'', Null], [Str ''S05'', Null], [Str ''S06'', Null],
               [Str ''S07'', Null], [Str ''S08'', Null], [Str ''S09'', Num 150],
               [Str ''S10'', Num 150], [Str ''S11'', Num 150]]\<rparr>)))
     = [bar 70, Text ''STEP 6: DATA QUALITY SCORE (Advanced)'', bar 70,
        QualityScore 90, Rating ''GOOD'']"
  by code_simp

text \<open>
  C4, as the code has it. When step 6 completes, it has made two to four deductions, each
  computed in float arithmetic: for missing cells \<open>min 20 ((nulls / cells * 100) / 5)\<close>,
  for duplicate rows \<open>min 15 ((dupes / rows * 100) / 6.67)\<close>, for invalid Phase values
  \<open>min 15 ((invalid / rows * 100) / 6.67)\<close> when the table has a Phase column, and for
  Est_Hours out of range \<open>min 10 ((invalid / rows * 100) / 10)\<close> when it has an
  Est_Hours column. The score is 100 with these deductions subtracted one after the
  other, each subtraction rounded, and then \<open>max 0\<close>; it lies in \<open>[0, 100]\<close>. The rating
  logged is EXCELLENT exactly when this score is at least 90, GOOD exactly when it is in
  \<open>[70, 90)\<close>, FAIR exactly when it is in \<open>[50, 70)\<close> and POOR exactly when it is below
  50. The score logged is this score rounded to one decimal, also in \<open>[0, 100]\<close>. A table
  with no missing cell, no two identical rows, every Phase value in the allow-list and
  every Est_Hours value a number in \<open>[0.5, 100]\<close> scores 100, printed 100.0, with the
  rating EXCELLENT.
\<close>

theorem C4_quality_score:
  assumes completes: "snd (calculate_data_quality_score df) = Inr ()"
  shows "\<exists>d_null d_dupe phase hours ds score.
      d_null = min 20 (float_div
         (if 0 < len_df df * length (columns df)
          then float_mul
                 (float_div
                    (real (sum_list (map (\<lambda>i. card {j. j < len_df df \<and> rows df ! j ! i = Null})
                                         [0..<length (columns df)])))
                    (real (len_df df * length (columns df)))) 100
          else 0) 5) \<and>
      d_dupe = min 15 (float_div
         (if 0 < len_df df
          then float_mul (float_div (real (mask_sum (df_duplicated df))) (real (len_df df))) 100
          else 0) (fl 6.67)) \<and>
      phase = (case index_of ''Phase'' (col_names df) of
                 None \<Rightarrow> []
               | Some i \<Rightarrow>
                   [min 15 (float_div
                      (float_mul
                         (float_div
                            (real (card {j. j < len_df df \<and>
                                     \<not> isin (rows df ! j ! i) (VALID_VALUES ''Phase'')}))
                            (real (len_df df))) 100)
                      (fl 6.67))]) \<and>
      hours = (case index_of ''Est_Hours'' (col_names df) of
                 None \<Rightarrow> []
               | Some i \<Rightarrow>
                   [min 10 (float_div
                      (float_mul
                         (float_div
                            (real (card {j. j < len_df df \<and>
                               (\<exists>x. rows df ! j ! i = Num x \<and>
                                    (x < MIN_EST_HOURS \<or> MAX_EST_HOURS < x))}))
                            (real (len_df df))) 100)
                      10)]) \<and>
      map snd ds = [d_null, d_dupe] @ phase @ hours \<and>
      deductions_of df = Inr (foldl float_sub 100 (map snd ds), ds) \<and>
      score = max 0 (foldl float_sub 100 (map snd ds)) \<and>
      0 \<le> score \<and> score \<le> 100 \<and>
      0 \<le> fmt1 score \<and> fmt1 score \<le> 100 \<and>
      (INFO, QualityScore (fmt1 score)) \<in> set (fst (calculate_data_quality_score df)) \<and>
      (INFO, Rating (rating_of score)) \<in> set (fst (calculate_data_quality_score df)) \<and>
      (\<forall>lv s. (lv, QualityScore s) \<in> set (fst (calculate_data_quality_score df))
                \<longrightarrow> s = fmt1 score) \<and>
      (\<forall>lv r. (lv, Rating r) \<in> set (fst (calculate_data_quality_score df))
                \<longrightarrow> r = rating_of score) \<and>
      (rating_of score = ''EXCELLENT'' \<longleftrightarrow> 90 \<le> score) \<and>
      (rating_of score = ''GOOD'' \<longleftrightarrow> 70 \<le> score \<and> score < 90) \<and>
      (rating_of score = ''FAIR (needs work)'' \<longleftrightarrow> 50 \<le> score \<and> score < 70) \<and>
      (rating_of score = ''POOR (critical issues)'' \<longleftrightarrow> score < 50) \<and>
      ((\<forall>i < length (columns df). Null \<notin> set (column_at df i)) \<and>
       distinct (rows df) \<and>
       (\<forall>i. index_of ''Phase'' (col_names df) = Some i \<longrightarrow>
           (\<forall>v \<in> set (column_at df i). isin v (VALID_VALUES ''Phase''))) \<and>
       (\<forall>i. index_of ''Est_Hours'' (col_names df) = Some i \<longrightarrow>
           (\<forall>v \<in> set (column_at df i).
               \<exists>x. v = Num x \<and> MIN_EST_HOURS \<le> x \<and> x \<le> MAX_EST_HOURS))
       \<longrightarrow> score = 100 \<and> fmt1 score = 100 \<and> rating_of score = ''EXCELLENT'')"
proof -
  define d_null where "d_null = min 20 (float_div
         (if 0 < len_df df * length (columns df)
          then float_mul
                 (float_div
                    (real (sum_list (map (\<lambda>i. card {j. j < len_df df \<and> rows df ! j ! i = Null})
                                         [0..<length (columns df)])))
                    (real (len_df df * length (columns df)))) 100
          else 0) 5)"
  define d_dupe where "d_dupe = min 15 (float_div
         (if 0 < len_df df
          then float_mul (float_div (real (mask_sum (df_duplicated df))) (real (len_df df))) 100
          else 0) (fl 6.67))"
  define phase where "phase = (case index_of ''Phase'' (col_names df) of
                 None \<Rightarrow> []
               | Some i \<Rightarrow>
                   [min 15 (float_div
                      (float_mul
                         (float_div
                            (real (card {j. j < len_df df \<and>
                                     \<not> isin (rows df ! j ! i) (VALID_VALUES ''Phase'')}))
                            (real (len_df df))) 100)
                      (fl 6.67))])"
  define hours where "hours = (case index_of ''Est_Hours'' (col_names df) of
                 None \<Rightarrow> []
               | Some i \<Rightarrow>
                   [min 10 (float_div
                      (float_mul
                         (float_div
                            (real (card {j. j < len_df df \<and>
                               (\<exists>x. rows df ! j ! i = Num x \<and>
                                    (x < MIN_EST_HOURS \<or> MAX_EST_HOURS < x))}))
                            (real (len_df df))) 100)
                      10)])"
  define ds where "ds = [(''NULLs'', d_null), (''Duplicates'', d_dupe)]
             @ map (Pair ''Invalid Phase'') phase @ map (Pair ''Invalid Hours'') hours"
  have nd: "null_deduction df = d_null"
    unfolding d_null_def null_deduction_def Let_def sum_null_counts ..
  have dd: "dupe_deduction df = d_dupe"
    unfolding d_dupe_def dupe_deduction_def Let_def ..
  from completes obtain st where st: "deductions_of df = Inr st"
    by (cases "deductions_of df") (simp_all add: score_log)
  define st2 where "st2 = deduct ''Duplicates'' d_dupe (deduct ''NULLs'' d_null (100, []))"
  from st obtain st3 where p: "phase_step df st2 = Inr st3" and h: "hours_step df st3 = Inr st"
    by (auto simp: deductions_of_def Let_def nd dd st2_def split: sum.splits)
  have st2: "st2 = (foldl float_sub 100 [d_null, d_dupe],
                    [(''NULLs'', d_null), (''Duplicates'', d_dupe)])"
    by (simp add: st2_def deduct_def)
  have "st3 = (foldl float_sub (fst st2) phase, snd st2 @ map (Pair ''Invalid Phase'') phase)"
    using phase_step_Inr [OF p] unfolding phase_def .
  then have st3: "st3 = (foldl float_sub 100 ([d_null, d_dupe] @ phase),
                    [(''NULLs'', d_null), (''Duplicates'', d_dupe)]
                    @ map (Pair ''Invalid Phase'') phase)"
    by (simp add: st2)
  have "st = (foldl float_sub (fst st3) hours, snd st3 @ map (Pair ''Invalid Hours'') hours)"
    using hours_step_Inr [OF h] unfolding hours_def .
  then have st_eq: "st = (foldl float_sub 100 ([d_null, d_dupe] @ phase @ hours), ds)"
    by (simp add: st3 ds_def)
  have vals: "map snd ds = [d_null, d_dupe] @ phase @ hours"
    by (simp add: ds_def comp_def)
  define score where "score = max 0 (foldl float_sub 100 (map snd ds))"
  have nonneg_null: "0 \<le> d_null" using null_deduction_nonneg [of df] by (simp only: nd)
  have nonneg_dupe: "0 \<le> d_dupe" using dupe_deduction_nonneg [of df] by (simp only: dd)
  have nonneg_phase: "\<forall>d \<in> set phase. 0 \<le> d"
    unfolding phase_def
    by (auto simp: float_div_nonneg float_mul_nonneg fl_nonneg split: option.splits)
  have nonneg_hours: "\<forall>d \<in> set hours. 0 \<le> d"
    unfolding hours_def
    by (auto simp: float_div_nonneg float_mul_nonneg split: option.splits)
  have nonneg: "\<forall>d \<in> set (map snd ds). 0 \<le> d"
    unfolding vals using nonneg_null nonneg_dupe nonneg_phase nonneg_hours by auto
  have "foldl float_sub 100 (map snd ds) \<le> 100"
    by (rule foldl_float_sub_le [OF _ nonneg]) simp
  then have range: "0 \<le> score \<and> score \<le> 100"
    by (simp add: score_def)
  have printed: "0 \<le> fmt1 score \<and> fmt1 score \<le> 100"
    using range fmt1_bounds by blast
  have ded: "deductions_of df = Inr (foldl float_sub 100 (map snd ds), ds)"
    unfolding vals using st st_eq by simp
  have log: "fst (calculate_data_quality_score df) =
        [(INFO, bar 70), (INFO, Text ''STEP 6: DATA QUALITY SCORE (Advanced)''),
         (INFO, bar 70), (INFO, QualityScore (fmt1 score)), (INFO, Rating (rating_of score)),
         (INFO, Text ''Deduction Breakdown:'')]
        @ map (\<lambda>cd. (INFO, Deduction (fst cd) (fmt1 (snd cd)))) (filter (\<lambda>cd. 0 < snd cd) ds)
        @ [(INFO, Text ''Result: DATA QUALITY SCORE CALCULATED'')]"
    unfolding score_log ded score_def by simp
  have s_in: "(INFO, QualityScore (fmt1 score)) \<in> set (fst (calculate_data_quality_score df))"
    and r_in: "(INFO, Rating (rating_of score)) \<in> set (fst (calculate_data_quality_score df))"
    unfolding log by simp_all
  have s_only: "\<forall>lv s. (lv, QualityScore s) \<in> set (fst (calculate_data_quality_score df))
      \<longrightarrow> s = fmt1 score"
    unfolding log by (auto simp: bar_def)
  have r_only: "\<forall>lv r. (lv, Rating r) \<in> set (fst (calculate_data_quality_score df))
      \<longrightarrow> r = rating_of score"
    unfolding log by (auto simp: bar_def)
  have perfect: "(\<forall>i < length (columns df). Null \<notin> set (column_at df i)) \<and>
       distinct (rows df) \<and>
       (\<forall>i. index_of ''Phase'' (col_names df) = Some i \<longrightarrow>
           (\<forall>v \<in> set (column_at df i). isin v (VALID_VALUES ''Phase''))) \<and>
       (\<forall>i. index_of ''Est_Hours'' (col_names df) = Some i \<longrightarrow>
           (\<forall>v \<in> set (column_at df i).
               \<exists>x. v = Num x \<and> MIN_EST_HOURS \<le> x \<and> x \<le> MAX_EST_HOURS))
       \<longrightarrow> score = 100 \<and> fmt1 score = 100 \<and> rating_of score = ''EXCELLENT''"
  proof
    assume clean: "(\<forall>i < length (columns df). Null \<notin> set (column_at df i)) \<and>
       distinct (rows df) \<and>
       (\<forall>i. index_of ''Phase'' (col_names df) = Some i \<longrightarrow>
           (\<forall>v \<in> set (column_at df i). isin v (VALID_VALUES ''Phase''))) \<and>
       (\<forall>i. index_of ''Est_Hours'' (col_names df) = Some i \<longrightarrow>
           (\<forall>v \<in> set (column_at df i).
               \<exists>x. v = Num x \<and> MIN_EST_HOURS \<le> x \<and> x \<le> MAX_EST_HOURS))"
    have z1: "d_null = 0" using null_deduction_clean [of df] clean nd by metis
    have z2: "d_dupe = 0" using dupe_deduction_clean [of df] clean dd by metis
    have z3: "\<forall>d \<in> set phase. d = 0"
    proof (cases "index_of ''Phase'' (col_names df)")
      case None
      then show ?thesis by (simp add: phase_def)
    next
      case (Some i)
      then have "invalid_phase_count df i = 0"
        using clean invalid_phase_count_clean by blast
      then have c0: "card {j. j < len_df df \<and>
           \<not> isin (rows df ! j ! i) (VALID_VALUES ''Phase'')} = 0"
        by (simp only: invalid_phase_count_card)
      show ?thesis
        unfolding phase_def Some option.case c0
        by (simp add: float_div_zero float_mul_zero)
    qed
    have z4: "\<forall>d \<in> set hours. d = 0"
    proof (cases "index_of ''Est_Hours'' (col_names df)")
      case None
      then show ?thesis by (simp add: hours_def)
    next
      case (Some i)
      have "\<And>j. j < len_df df \<Longrightarrow>
          \<exists>x. rows df ! j ! i = Num x \<and> MIN_EST_HOURS \<le> x \<and> x \<le> MAX_EST_HOURS"
        using clean Some by (metis length_column_at nth_column_at nth_mem)
      then have "{j. j < len_df df \<and>
           (\<exists>x. rows df ! j ! i = Num x \<and> (x < MIN_EST_HOURS \<or> MAX_EST_HOURS < x))} = {}"
        by fastforce
      then have c0: "card {j. j < len_df df \<and>
           (\<exists>x. rows df ! j ! i = Num x \<and> (x < MIN_EST_HOURS \<or> MAX_EST_HOURS < x))} = 0"
        by (simp only: card.empty)
      show ?thesis
        unfolding hours_def Some option.case c0
        by (simp add: float_div_zero float_mul_zero)
    qed
    have "\<forall>d \<in> set (map snd ds). d = 0" unfolding vals using z1 z2 z3 z4 by auto
    then have "foldl float_sub 100 (map snd ds) = 100" by (rule foldl_float_sub_zero)
    then have "score = 100" by (simp add: score_def)
    then show "score = 100 \<and> fmt1 score = 100 \<and> rating_of score = ''EXCELLENT''"
      by (simp add: fmt1_100 rating_of_def)
  qed
  note r1 = range [THEN conjunct1] and r2 = range [THEN conjunct2]
    and p1 = printed [THEN conjunct1] and p2 = printed [THEN conjunct2]
  note b1 = rating_bands [of score, THEN conjunct1]
    and b2 = rating_bands [of score, THEN conjunct2, THEN conjunct1]
    and b3 = rating_bands [of score, THEN conjunct2, THEN conjunct2, THEN conjunct1]
    and b4 = rating_bands [of score, THEN conjunct2, THEN conjunct2, THEN conjunct2]
  show ?thesis
    apply (rule exI [of _ d_null], rule exI [of _ d_dupe], rule exI [of _ phase],
           rule exI [of _ hours], rule exI [of _ ds], rule exI [of _ score])
    apply (intro conjI)
    apply (fact d_null_def d_dupe_def phase_def hours_def vals ded score_def r1 r2 p1 p2
             s_in r_in s_only r_only b1 b2 b3 b4 perfect)+
    done
qed

theorem C4_quality_score_witness:
  "\<exists>score. 70 \<le> score \<and> score < 90 \<and> fmt1 score = 838 / 10 \<and>
      (INFO, QualityScore (838 / 10))
        \<in> set (fst (calculate_data_quality_score
           \<lparr>columns = [(''Phase'', ''object''), (''Est_Hours'', ''float64'')],
            rows = [[Str ''Capstone'', Num 8], [Str ''Capstone'', Num 8],
                    [Str ''Bogus'', Num 150], [Null, Num 3]]\<rparr>)) \<and>
      (INFO, Rating ''GOOD'')
        \<in> set (fst (calculate_data_quality_score
           \<lparr>columns = [(''Phase'', ''object''), (''Est_Hours'', ''float64'')],
            rows = [[Str ''Capstone'', Num 8], [Str ''Capstone'', Num 8],
                    [Str ''Bogus'', Num 150], [Null, Num 3]]\<rparr>))"
proof -
  let ?df = "\<lparr>columns = [(''Phase'', ''object''), (''Est_Hours'', ''float64'')],
               rows = [[Str ''Capstone'', Num 8], [Str ''Capstone'', Num 8],
                       [Str ''Bogus'', Num 150], [Null, Num 3]]\<rparr>"
  have completes: "snd (calculate_data_quality_score ?df) = Inr ()"
    by code_simp
  have s: "(INFO, QualityScore (838 / 10)) \<in> set (fst (calculate_data_quality_score ?df))"
    by code_simp
  have r: "(INFO, Rating ''GOOD'') \<in> set (fst (calculate_data_quality_score ?df))"
    by code_simp
  from C4_quality_score [OF completes] obtain score where
    s_only: "\<forall>lv s. (lv, QualityScore s) \<in> set (fst (calculate_data_quality_score ?df))
                \<longrightarrow> s = fmt1 score"
    and r_only: "\<forall>lv r. (lv, Rating r) \<in> set (fst (calculate_data_quality_score ?df))
                \<longrightarrow> r = rating_of score"
    and good: "rating_of score = ''GOOD'' \<longleftrightarrow> 70 \<le> score \<and> score < 90"
    by blast
  have "fmt1 score = 838 / 10" using s s_only by metis
  moreover have "rating_of score = ''GOOD''" using r r_only by metis
  ultimately show ?thesis using good s r by blast
qed

section \<open>Step 3: identical rows\<close>

lemma set_insert_by: "set (insert_by le x xs) = insert x (set xs)"
  by (induction xs) auto

lemma length_insert_by: "length (insert_by le x xs) = Suc (length xs)"
  by (induction xs) auto

lemma set_sort_by: "set (sort_by le xs) = set xs"
  by (induction xs) (auto simp: sort_by_def set_insert_by)

lemma length_sort_by: "length (sort_by le xs) = length xs"
  by (induction xs) (auto simp: sort_by_def length_insert_by)

lemma distinct_insert_by: "distinct (insert_by le x xs) \<longleftrightarrow> x \<notin> set xs \<and> distinct xs"
  by (induction xs) (auto simp: set_insert_by)

lemma distinct_sort_by: "distinct (sort_by le xs) \<longleftrightarrow> distinct xs"
  by (induction xs) (auto simp: sort_by_def distinct_insert_by set_sort_by [unfolded sort_by_def])

lemma sorted_insert_by:
  assumes total: "\<And>a b. le a b \<or> le b a" and trans: "\<And>a b c. le a b \<Longrightarrow> le b c \<Longrightarrow> le a c"
  shows "sorted_wrt le xs \<Longrightarrow> sorted_wrt le (insert_by le x xs)"
proof (induction xs)
  case Nil
  then show ?case by simp
next
  case (Cons y ys)
  show ?case
  proof (cases "le x y")
    case True
    then have "\<forall>z \<in> set ys. le x z" using Cons.prems trans by auto
    then show ?thesis using True Cons.prems by simp
  next
    case False
    then have "le y x" using total by blast
    then show ?thesis using False Cons by (auto simp: set_insert_by)
  qed
qed

lemma sorted_sort_by:
  assumes total: "\<And>a b. le a b \<or> le b a" and trans: "\<And>a b c. le a b \<Longrightarrow> le b c \<Longrightarrow> le a c"
  shows "sorted_wrt le (sort_by le xs)"
proof (induction xs)
  case Nil
  then show ?case by (simp add: sort_by_def)
next
  case (Cons x xs)
  then show ?case
    using sorted_insert_by [of le, OF total trans] by (simp add: sort_by_def)
qed

lemma cell_le_total: "cell_le a b \<or> cell_le b a"
  by (cases a; cases b) auto

lemma cell_le_trans: "cell_le a b \<Longrightarrow> cell_le b c \<Longrightarrow> cell_le a c"
  by (cases a; cases b; cases c) auto

lemma cell_le_antisym: "cell_le a b \<Longrightarrow> cell_le b a \<Longrightarrow> a = b"
  by (cases a; cases b) auto

lemma row_le_total: "row_le r s \<or> row_le s r"
proof (induction r s rule: row_le.induct)
  case (1 ys)
  then show ?case by simp
next
  case (2 x xs)
  then show ?case by simp
next
  case (3 x xs y ys)
  then show ?case using cell_le_total [of x y] by auto
qed

lemma row_le_trans: "row_le r s \<Longrightarrow> row_le s t \<Longrightarrow> row_le r t"
proof (induction r s arbitrary: t rule: row_le.induct)
  case (1 ys)
  then show ?case by simp
next
  case (2 x xs)
  then show ?case by simp
next
  case (3 x xs y ys)
  then obtain z zs where t: "t = z # zs" by (cases t) auto
  show ?case
  proof (cases "x = y")
    case True
    then show ?thesis using 3 t by (auto split: if_splits)
  next
    case xy: False
    then have le_xy: "cell_le x y" using "3.prems"(1) by simp
    show ?thesis
    proof (cases "y = z")
      case True
      then show ?thesis using xy le_xy t by simp
    next
      case False
      then have le_yz: "cell_le y z" using "3.prems"(2) t by simp
      have "x \<noteq> z" using xy le_xy le_yz cell_le_antisym by blast
      then show ?thesis using cell_le_trans [OF le_xy le_yz] t by simp
    qed
  qed
qed

lemma is_num_iff: "is_num v \<longleftrightarrow> (\<exists>a. v = Num a)"
  by (cases v) (simp_all add: is_num_def)

lemma is_str_iff: "is_str v \<longleftrightarrow> (\<exists>s. v = Str s)"
  by (cases v) (simp_all add: is_str_def)

lemma mixed_iff: "mixed vs \<longleftrightarrow> (\<exists>a. Num a \<in> set vs) \<and> (\<exists>s. Str s \<in> set vs)"
  by (auto simp: mixed_def list_ex_iff is_num_iff is_str_iff)

lemma sort_values_Inr:
  assumes "sort_values nkeys sel = Inr ds"
  shows "set ds = set sel" and "length ds = length sel"
    and "sorted_wrt row_le (map snd ds)"
proof -
  from assms have ds: "ds = sort_by (\<lambda>a b. row_le (snd a) (snd b)) sel"
    by (simp add: sort_values_def split: if_splits)
  show "set ds = set sel" by (simp add: ds set_sort_by)
  show "length ds = length sel" by (simp add: ds length_sort_by)
  have "sorted_wrt (\<lambda>a b. row_le (snd a) (snd b)) ds"
    unfolding ds
  proof (rule sorted_sort_by)
    show "row_le (snd a) (snd b) \<or> row_le (snd b) (snd a)" for a b :: "nat \<times> row"
      by (rule row_le_total)
    show "row_le (snd a) (snd b) \<Longrightarrow> row_le (snd b) (snd c) \<Longrightarrow> row_le (snd a) (snd c)"
      for a b c :: "nat \<times> row"
      by (rule row_le_trans)
  qed
  then show "sorted_wrt row_le (map snd ds)" by (simp add: sorted_wrt_map)
qed

lemma sort_values_total:
  "\<not> (nkeys = 1 \<and> mixed (map (\<lambda>ir. snd ir ! 0) sel)) \<Longrightarrow> \<exists>ds. sort_values nkeys sel = Inr ds"
  by (simp add: sort_values_def)

lemma sort_values_raises:
  "nkeys = 1 \<Longrightarrow> mixed (map (\<lambda>ir. snd ir ! 0) sel) \<Longrightarrow> sort_values nkeys sel = Inl TypeError"
  by (simp add: sort_values_def)

lemma check_full_duplicates_log:
  "check_full_duplicates df =
     (if 0 < mask_sum (df_duplicated_all df) then
        (case sort_values (length (columns df)) (select (df_duplicated_all df) (rows df)) of
           Inl e \<Rightarrow>
             ([(INFO, bar 70), (INFO, Text ''STEP 3: FULL ROW DUPLICATE CHECK''), (INFO, bar 70),
               (WARNING, FullDupesFound (mask_sum (df_duplicated_all df)))], Inl e)
         | Inr ds \<Rightarrow>
             ([(INFO, bar 70), (INFO, Text ''STEP 3: FULL ROW DUPLICATE CHECK''), (INFO, bar 70),
               (WARNING, FullDupesFound (mask_sum (df_duplicated_all df))),
               (WARNING, DuplicateRows ds),
               (WARNING, Text ''Result: FAILED (duplicates found)'')], Inr ()))
      else
        ([(INFO, bar 70), (INFO, Text ''STEP 3: FULL ROW DUPLICATE CHECK''), (INFO, bar 70),
          (INFO, Text ''  [OK] No full row duplicates found''),
          (INFO, Text ''Result: PASSED'')], Inr ()))"
  by (simp add: check_full_duplicates_def header_def seq_def emit_def raise_def Let_def
      split: sum.splits)

lemma full_dupes_select:
  assumes "columns df \<noteq> []"
  shows "set (select (df_duplicated_all df) (rows df))
           = {(j, rows df ! j) | j. j < len_df df \<and>
                (\<exists>k<len_df df. k \<noteq> j \<and> rows df ! k = rows df ! j)}"
    and "length (select (df_duplicated_all df) (rows df)) = mask_sum (df_duplicated_all df)"
proof -
  have m: "df_duplicated_all df = duplicated_all (rows df)"
    using assms by (cases "rows df = []") (simp_all add: df_duplicated_all_def df_empty_def duplicated_all_def)
  have len: "length (df_duplicated_all df) = length (rows df)"
    by (simp add: m length_duplicated_all)
  show "set (select (df_duplicated_all df) (rows df))
           = {(j, rows df ! j) | j. j < len_df df \<and>
                (\<exists>k<len_df df. k \<noteq> j \<and> rows df ! k = rows df ! j)}"
    unfolding set_select [OF len] by (auto simp: m nth_duplicated_all len_df_def)
  show "length (select (df_duplicated_all df) (rows df)) = mask_sum (df_duplicated_all df)"
    by (rule length_select [OF len])
qed

lemma dupe_keys_mixed_iff:
  assumes "columns df \<noteq> []"
  shows "mixed (map (\<lambda>ir. snd ir ! 0) (select (df_duplicated_all df) (rows df))) \<longleftrightarrow>
     (\<exists>j a. j < len_df df \<and> (\<exists>k<len_df df. k \<noteq> j \<and> rows df ! k = rows df ! j) \<and>
            rows df ! j ! 0 = Num a) \<and>
     (\<exists>j s. j < len_df df \<and> (\<exists>k<len_df df. k \<noteq> j \<and> rows df ! k = rows df ! j) \<and>
            rows df ! j ! 0 = Str s)"
proof -
  have "set (map (\<lambda>ir. snd ir ! 0) (select (df_duplicated_all df) (rows df)))
      = {rows df ! j ! 0 | j. j < len_df df \<and>
            (\<exists>k<len_df df. k \<noteq> j \<and> rows df ! k = rows df ! j)}"
    unfolding set_map full_dupes_select(1) [OF assms] by force
  then show ?thesis
    unfolding mixed_iff by (auto; metis)
qed

text \<open>
  In a table of one column whose duplicate rows hold both a number and a string, the sort
  raises after the count has been logged.
\<close>

lemma check_full_duplicates_mixed_raises:
  assumes "length (columns df) = 1"
      and "mixed (map (\<lambda>ir. snd ir ! 0) (select (df_duplicated_all df) (rows df)))"
  shows "check_full_duplicates df =
     ([(INFO, bar 70), (INFO, Text ''STEP 3: FULL ROW DUPLICATE CHECK''), (INFO, bar 70),
       (WARNING, FullDupesFound (mask_sum (df_duplicated_all df)))], Inl TypeError)"
proof -
  have cols: "columns df \<noteq> []" using assms(1) by auto
  have "select (df_duplicated_all df) (rows df) \<noteq> []"
    using assms(2) by (auto simp: mixed_iff)
  then have "0 < mask_sum (df_duplicated_all df)"
    using full_dupes_select(2) [OF cols] by (metis length_greater_0_conv)
  then show ?thesis
    by (simp add: check_full_duplicates_log sort_values_raises [OF assms])
qed

text \<open>
  C7, at a table of two identical rows: step 3 logs three records at WARNING level, the
  first with the count, the second with the rows, the third the verdict. No single
  record carries both the count and the rows.
\<close>

theorem C7_count_and_rows_are_separate_warnings:
  "at_level WARNING (fst (check_full_duplicates
       \<lparr>columns = [(''Story_ID'', ''object'')], rows = [[Str ''S1''], [Str ''S1'']]\<rparr>))
     = [FullDupesFound 2,
        DuplicateRows [(0, [Str ''S1'']), (1, [Str ''S1''])],
        Text ''Result: FAILED (duplicates found)'']"
  by code_simp

text \<open>
  C7, as the code has it: in a table with at least one column, the number that step 3
  reports is the number of rows that have an identical row elsewhere in the table, so
  two identical rows are both counted, and the stage logs PASSED exactly when that number
  is 0, with no warning. When the table has several columns, or its duplicate rows do not
  hold both a number and a string, the stage does not raise, and when there are duplicate
  rows its log is the header and three records at WARNING level: the count, the rows so
  counted (each with its index) sorted by their columns from left to right, and the
  verdict FAILED.
\<close>

theorem C7_full_duplicates:
  assumes cols: "columns df \<noteq> []"
  shows "let D = {j. j < len_df df \<and> (\<exists>k<len_df df. k \<noteq> j \<and> rows df ! k = rows df ! j)} in
     mask_sum (df_duplicated_all df) = card D \<and>
     (\<forall>j k. j < len_df df \<and> k < len_df df \<and> j \<noteq> k \<and> rows df ! j = rows df ! k
        \<longrightarrow> j \<in> D \<and> k \<in> D \<and> 2 \<le> card D) \<and>
     (card D = 0 \<longrightarrow>
        check_full_duplicates df =
          ([(INFO, bar 70), (INFO, Text ''STEP 3: FULL ROW DUPLICATE CHECK''), (INFO, bar 70),
            (INFO, Text ''  [OK] No full row duplicates found''),
            (INFO, Text ''Result: PASSED'')], Inr ())) \<and>
     ((INFO, Text ''Result: PASSED'') \<in> set (fst (check_full_duplicates df)) \<longleftrightarrow> card D = 0) \<and>
     ((length (columns df) = 1 \<longrightarrow>
         \<not> ((\<exists>j a. j \<in> D \<and> rows df ! j ! 0 = Num a) \<and>
            (\<exists>j s. j \<in> D \<and> rows df ! j ! 0 = Str s))) \<longrightarrow>
        snd (check_full_duplicates df) = Inr () \<and>
        (0 < card D \<longrightarrow>
           (\<exists>ds. fst (check_full_duplicates df) =
              [(INFO, bar 70), (INFO, Text ''STEP 3: FULL ROW DUPLICATE CHECK''),
               (INFO, bar 70),
               (WARNING, FullDupesFound (card D)),
               (WARNING, DuplicateRows ds),
               (WARNING, Text ''Result: FAILED (duplicates found)'')] \<and>
              set ds = {(j, rows df ! j) | j. j \<in> D} \<and>
              length ds = card D \<and>
              sorted_wrt row_le (map snd ds))))"
proof -
  define D where "D = {j. j < len_df df \<and> (\<exists>k<len_df df. k \<noteq> j \<and> rows df ! k = rows df ! j)}"
  let ?sel = "select (df_duplicated_all df) (rows df)"
  have fin: "finite D" by (simp add: D_def)
  have m: "df_duplicated_all df = duplicated_all (rows df)"
    using cols
    by (cases "rows df = []") (simp_all add: df_duplicated_all_def df_empty_def duplicated_all_def)
  have count: "mask_sum (df_duplicated_all df) = card D"
    by (simp add: m mask_sum_duplicated_all D_def len_df_def)
  have sym: "\<forall>j k. j < len_df df \<and> k < len_df df \<and> j \<noteq> k \<and> rows df ! j = rows df ! k
        \<longrightarrow> j \<in> D \<and> k \<in> D \<and> 2 \<le> card D"
  proof (intro allI impI)
    fix j k
    assume a: "j < len_df df \<and> k < len_df df \<and> j \<noteq> k \<and> rows df ! j = rows df ! k"
    then have jk: "j \<in> D" "k \<in> D" by (auto simp: D_def)
    then have "card {j, k} \<le> card D" using fin by (intro card_mono) auto
    then show "j \<in> D \<and> k \<in> D \<and> 2 \<le> card D" using jk a by simp
  qed
  have none: "card D = 0 \<longrightarrow>
        check_full_duplicates df =
          ([(INFO, bar 70), (INFO, Text ''STEP 3: FULL ROW DUPLICATE CHECK''), (INFO, bar 70),
            (INFO, Text ''  [OK] No full row duplicates found''),
            (INFO, Text ''Result: PASSED'')], Inr ())"
    by (simp add: check_full_duplicates_log count)
  have passed: "(INFO, Text ''Result: PASSED'') \<in> set (fst (check_full_duplicates df))
      \<longleftrightarrow> card D = 0"
    by (cases "card D = 0")
       (auto simp: check_full_duplicates_log count text_neq_bar split: sum.splits)
  have sortable: "snd (check_full_duplicates df) = Inr () \<and>
        (0 < card D \<longrightarrow>
           (\<exists>ds. fst (check_full_duplicates df) =
              [(INFO, bar 70), (INFO, Text ''STEP 3: FULL ROW DUPLICATE CHECK''),
               (INFO, bar 70),
               (WARNING, FullDupesFound (card D)),
               (WARNING, DuplicateRows ds),
               (WARNING, Text ''Result: FAILED (duplicates found)'')] \<and>
              set ds = {(j, rows df ! j) | j. j \<in> D} \<and>
              length ds = card D \<and>
              sorted_wrt row_le (map snd ds)))"
    if typed: "length (columns df) = 1 \<longrightarrow>
         \<not> ((\<exists>j a. j \<in> D \<and> rows df ! j ! 0 = Num a) \<and>
            (\<exists>j s. j \<in> D \<and> rows df ! j ! 0 = Str s))"
  proof -
    have "\<not> (length (columns df) = 1 \<and> mixed (map (\<lambda>ir. snd ir ! 0) ?sel))"
      using typed unfolding dupe_keys_mixed_iff [OF cols] D_def by blast
    then obtain ds where ds: "sort_values (length (columns df)) ?sel = Inr ds"
      using sort_values_total by blast
    have no_raise: "snd (check_full_duplicates df) = Inr ()"
      by (simp add: check_full_duplicates_log ds)
    have three: "0 < card D \<longrightarrow>
           (\<exists>ds. fst (check_full_duplicates df) =
              [(INFO, bar 70), (INFO, Text ''STEP 3: FULL ROW DUPLICATE CHECK''),
               (INFO, bar 70),
               (WARNING, FullDupesFound (card D)),
               (WARNING, DuplicateRows ds),
               (WARNING, Text ''Result: FAILED (duplicates found)'')] \<and>
              set ds = {(j, rows df ! j) | j. j \<in> D} \<and>
              length ds = card D \<and>
              sorted_wrt row_le (map snd ds))"
    proof
      assume pos: "0 < card D"
      have "fst (check_full_duplicates df) =
              [(INFO, bar 70), (INFO, Text ''STEP 3: FULL ROW DUPLICATE CHECK''),
               (INFO, bar 70),
               (WARNING, FullDupesFound (card D)),
               (WARNING, DuplicateRows ds),
               (WARNING, Text ''Result: FAILED (duplicates found)'')]"
        using pos by (simp add: check_full_duplicates_log count ds)
      moreover have "set ds = {(j, rows df ! j) | j. j \<in> D}"
        by (simp add: sort_values_Inr(1) [OF ds] full_dupes_select(1) [OF cols] D_def)
      moreover have "length ds = card D"
        by (simp add: sort_values_Inr(2) [OF ds] full_dupes_select(2) [OF cols] count)
      moreover have "sorted_wrt row_le (map snd ds)"
        by (rule sort_values_Inr(3) [OF ds])
      ultimately show "\<exists>ds. fst (check_full_duplicates df) =
              [(INFO, bar 70), (INFO, Text ''STEP 3: FULL ROW DUPLICATE CHECK''),
               (INFO, bar 70),
               (WARNING, FullDupesFound (card D)),
               (WARNING, DuplicateRows ds),
               (WARNING, Text ''Result: FAILED (duplicates found)'')] \<and>
              set ds = {(j, rows df ! j) | j. j \<in> D} \<and>
              length ds = card D \<and>
              sorted_wrt row_le (map snd ds)"
        by blast
    qed
    show ?thesis using no_raise three by blast
  qed
  show ?thesis
    unfolding Let_def D_def [symmetric]
    using count sym none passed sortable by blast
qed

theorem C7_full_duplicates_witness:
  "fst (check_full_duplicates
       \<lparr>columns = [(''Story_ID'', ''object'')],
        rows = [[Str ''S2''], [Str ''S1''], [Str ''S2'']]\<rparr>) =
     [(INFO, bar 70), (INFO, Text ''STEP 3: FULL ROW DUPLICATE CHECK''), (INFO, bar 70),
      (WARNING, FullDupesFound 2),
      (WARNING, DuplicateRows [(0, [Str ''S2'']), (2, [Str ''S2''])]),
      (WARNING, Text ''Result: FAILED (duplicates found)'')]
   \<and> snd (check_full_duplicates
       \<lparr>columns = [(''Story_ID'', ''object'')],
        rows = [[Str ''S2''], [Str ''S1''], [Str ''S2'']]\<rparr>) = Inr ()
   \<and> (INFO, Text ''Result: PASSED'') \<notin> set (fst (check_full_duplicates
       \<lparr>columns = [(''Story_ID'', ''object'')],
        rows = [[Str ''S2''], [Str ''S1''], [Str ''S2'']]\<rparr>))"
proof -
  let ?df = "\<lparr>columns = [(''Story_ID'', ''object'')],
        rows = [[Str ''S2''], [Str ''S1''], [Str ''S2'']]\<rparr>"
  let ?D = "{j. j < len_df ?df \<and> (\<exists>k<len_df ?df. k \<noteq> j \<and> rows ?df ! k = rows ?df ! j)}"
  have cols: "columns ?df \<noteq> []" by simp
  have log: "fst (check_full_duplicates ?df) =
     [(INFO, bar 70), (INFO, Text ''STEP 3: FULL ROW DUPLICATE CHECK''), (INFO, bar 70),
      (WARNING, FullDupesFound 2),
      (WARNING, DuplicateRows [(0, [Str ''S2'']), (2, [Str ''S2''])]),
      (WARNING, Text ''Result: FAILED (duplicates found)'')]"
    by code_simp
  have strings: "\<And>j a. j < len_df ?df \<Longrightarrow> rows ?df ! j ! 0 \<noteq> Num a"
    by (auto simp: len_df_def less_Suc_eq numeral_3_eq_3)
  have typed: "length (columns ?df) = 1 \<longrightarrow>
         \<not> ((\<exists>j a. j \<in> ?D \<and> rows ?df ! j ! 0 = Num a) \<and>
            (\<exists>j s. j \<in> ?D \<and> rows ?df ! j ! 0 = Str s))"
    using strings by blast
  have no_raise: "snd (check_full_duplicates ?df) = Inr ()"
    using C7_full_duplicates [OF cols] typed unfolding Let_def by blast
  have "mask_sum (df_duplicated_all ?df) = 2" by code_simp
  then have card: "card ?D = 2"
    using C7_full_duplicates [OF cols] by (simp add: Let_def)
  have "(INFO, Text ''Result: PASSED'') \<in> set (fst (check_full_duplicates ?df)) \<longleftrightarrow> card ?D = 0"
    using C7_full_duplicates [OF cols] unfolding Let_def by blast
  then have "(INFO, Text ''Result: PASSED'') \<notin> set (fst (check_full_duplicates ?df))"
    using card by (metis zero_neq_numeral)
  then show ?thesis using log no_raise by blast
qed

section \<open>Step 4: the primary key\<close>
















section \<open>Load failures\<close>

lemma load_free_emit:
  "(\<forall>r \<in> set l. snd r \<noteq> FileNotFound \<and> snd r \<noteq> FileEmpty) \<Longrightarrow> load_free (emit l)"
  by (simp add: load_free_def emit_def)

lemma load_free_ret: "load_free (ret a)"
  by (simp add: load_free_def ret_def)

lemma load_free_raise:
  "e \<noteq> FileNotFoundError \<Longrightarrow> e \<noteq> EmptyDataError \<Longrightarrow> load_free (raise e)"
  by (simp add: load_free_def raise_def)

lemma load_free_seq:
  assumes "load_free m" and "\<And>a. load_free (f a)"
  shows "load_free (seq m f)"
proof (cases "snd m")
  case (Inl e)
  then show ?thesis
    using assms(1) by (simp add: load_free_def fst_seq snd_seq)
next
  case (Inr a)
  then show ?thesis
    using assms(1) assms(2)[of a] by (auto simp: load_free_def fst_seq snd_seq)
qed

lemma load_free_header: "load_free (header t)"
  by (simp add: header_def load_free_emit bar_def)

lemma check_dtypes_free:
  "r \<in> set (fst (check_dtypes df schema)) \<Longrightarrow> snd r \<noteq> FileNotFound \<and> snd r \<noteq> FileEmpty"
  by (induction df schema arbitrary: r rule: check_dtypes.induct)
     (auto split: option.splits prod.splits if_splits)

lemma load_free_validate_schema: "load_free (validate_schema df)"
proof -
  obtain l2 issues2 where c: "check_dtypes df EXPECTED_SCHEMA = (l2, issues2)"
    by (cases "check_dtypes df EXPECTED_SCHEMA")
  have "\<forall>r \<in> set l2. snd r \<noteq> FileNotFound \<and> snd r \<noteq> FileEmpty"
    using check_dtypes_free[of _ df EXPECTED_SCHEMA] c by simp
  then show ?thesis
    unfolding validate_schema_def Let_def c prod.case
    by (intro load_free_seq load_free_header load_free_emit) auto
qed

lemma load_free_check_nulls: "load_free (check_nulls df)"
  unfolding check_nulls_def Let_def
  by (intro load_free_seq load_free_header)
     (auto simp: load_free_def emit_def null_report_def split: prod.splits)

lemma load_free_check_full_duplicates: "load_free (check_full_duplicates df)"
  by (auto simp: load_free_def check_full_duplicates_log bar_def sort_values_def
      split: sum.splits if_splits)

lemma load_free_check_key_duplicates: "load_free (check_key_duplicates df)"
  unfolding check_key_duplicates_def Let_def
  by (intro load_free_seq load_free_header)
     (auto simp: load_free_def emit_def split: option.splits)

lemma load_free_log_invalid_rows: "load_free (log_invalid_rows c df sel)"
proof (induction sel)
  case Nil
  then show ?case by (simp add: load_free_ret)
next
  case (Cons ir sel)
  obtain idx r where ir: "ir = (idx, r)" by (cases ir)
  have key: "row_get df r c' = Inl e \<Longrightarrow> e \<noteq> FileNotFoundError \<and> e \<noteq> EmptyDataError"
    for c' e
    by (auto simp: row_get_def split: option.splits)
  show ?case
    unfolding ir log_invalid_rows.simps
    by (auto split: sum.splits
        intro!: load_free_raise load_free_seq load_free_emit Cons.IH dest: key)
qed

lemma load_free_report_invalid: "load_free (report_invalid c ok df sel b)"
  unfolding report_invalid_def
  by (auto intro!: load_free_seq load_free_emit load_free_ret load_free_log_invalid_rows)

lemma series_cmp_Inl:
  "series_cmp cmp col x = Inl e \<Longrightarrow> \<exists>v \<in> set col. cmp v x = Inl e"
  by (induction col) (auto split: sum.splits)

lemma invalid_hours_Inl: "invalid_hours df i = Inl e \<Longrightarrow> e = TypeError"
proof -
  assume a: "invalid_hours df i = Inl e"
  have lt: "cell_lt v x = Inl e' \<Longrightarrow> e' = TypeError" for v x e' by (cases v) auto
  have gt: "cell_gt v x = Inl e' \<Longrightarrow> e' = TypeError" for v x e' by (cases v) auto
  from a have "series_cmp cell_lt (column_at df i) MIN_EST_HOURS = Inl e \<or>
               series_cmp cell_gt (column_at df i) MAX_EST_HOURS = Inl e"
    by (auto simp: invalid_hours_def invalid_hours_mask_def split: sum.splits)
  then show ?thesis using lt gt by (auto dest!: series_cmp_Inl)
qed

lemma load_free_check_est_hours: "load_free (check_est_hours df b)"
  unfolding check_est_hours_def
  by (auto split: option.splits sum.splits dest: invalid_hours_Inl
      intro!: load_free_seq load_free_emit load_free_ret load_free_raise load_free_report_invalid)

lemma load_free_check_enum: "load_free (check_enum c df b)"
  unfolding check_enum_def
  by (auto split: option.splits
      intro!: load_free_seq load_free_emit load_free_ret load_free_report_invalid)

lemma load_free_validate_business_logic: "load_free (validate_business_logic df)"
  unfolding validate_business_logic_def
  by (auto intro!: load_free_seq load_free_header load_free_check_est_hours load_free_check_enum
      load_free_emit)

lemma deductions_of_Inl:
  "deductions_of df = Inl e \<Longrightarrow> e = ZeroDivisionError \<or> e = TypeError"
  by (auto simp: deductions_of_def phase_step_def hours_step_def py_true_divide_def
      invalid_hours_count_def Let_def
      split: sum.splits option.splits if_splits dest: invalid_hours_Inl)

lemma load_free_score: "load_free (calculate_data_quality_score df)"
  by (auto simp: load_free_def score_log bar_def split: sum.splits dest: deductions_of_Inl)

lemma load_free_run_stages: "load_free (run_stages df)"
  unfolding run_stages_def
  by (intro load_free_seq load_free_validate_schema load_free_check_nulls
      load_free_check_full_duplicates load_free_check_key_duplicates
      load_free_validate_business_logic load_free_score)

lemma load_free_try_body: "load_free (try_body (Inr df))"
  unfolding try_body_def
  by (auto intro!: load_free_seq load_free_emit load_free_run_stages simp: bar_def)


lemma handler_other:
  "e \<noteq> FileNotFoundError \<Longrightarrow> e \<noteq> EmptyDataError \<Longrightarrow> handler e = [(CRITICAL, Unexpected e)]"
  by (cases e) simp_all

lemma main_log:
  "fst (main loaded) =
     [(INFO, bar 114), (INFO, Text ''DATA VALIDATION PIPELINE STARTED''), (INFO, bar 70)]
     @ fst (try_body loaded)
     @ (case snd (try_body loaded) of Inl e \<Rightarrow> handler e | Inr u \<Rightarrow> [])"
  by (cases "try_body loaded"; cases "snd (try_body loaded)")
     (auto simp: main_def seq_emit)

lemma main_loaded_free:
  "r \<in> set (fst (main (Inr df))) \<Longrightarrow> snd r \<noteq> FileNotFound \<and> snd r \<noteq> FileEmpty"
proof -
  assume r: "r \<in> set (fst (main (Inr df)))"
  have lf: "load_free (try_body (Inr df))" by (rule load_free_try_body)
  show ?thesis
  proof (cases "snd (try_body (Inr df))")
    case (Inl e)
    then have "e \<noteq> FileNotFoundError" "e \<noteq> EmptyDataError"
      using lf by (auto simp: load_free_def)
    then have "handler e = [(CRITICAL, Unexpected e)]" by (rule handler_other)
    then show ?thesis
      using r lf Inl by (auto simp: main_log load_free_def bar_def)
  next
    case (Inr u)
    then show ?thesis
      using r lf by (auto simp: main_log load_free_def bar_def)
  qed
qed

lemma main_loaded_runs_stages:
  "(INFO, Text ''STEP 1: SCHEMA VALIDATION'') \<in> set (fst (main (Inr df)))"
  by (simp add: main_log try_body_def run_stages_def validate_schema_def header_def
      fst_seq seq_emit emit_def)

text \<open>
  C9 (counterexample): a file that holds the header line only is loaded as a table of zero
  rows. With the single column Story_ID the six stages run, nothing is logged at CRITICAL
  level and the exit status is 0; with the three columns of the expected schema the run
  ends in the handler of unexpected errors, on the ZeroDivisionError of the scorer, and
  not under the file-is-empty message.
\<close>

theorem C9_zero_row_table_is_loaded:
  "snd (main (Inr \<lparr>columns = [(''Story_ID'', ''object'')], rows = []\<rparr>)) = 0
   \<and> at_level CRITICAL (fst (main (Inr \<lparr>columns = [(''Story_ID'', ''object'')], rows = []\<rparr>))) = []
   \<and> last (fst (main (Inr \<lparr>columns = [(''Story_ID'', ''object'')], rows = []\<rparr>))) =
       (INFO, Text ''Full report saved to: validation_report.log'')
   \<and> snd (main (Inr \<lparr>columns = [(''Story_ID'', ''object''), (''Phase'', ''object''),
                               (''Est_Hours'', ''object'')], rows = []\<rparr>)) = 1
   \<and> at_level CRITICAL (fst (main (Inr \<lparr>columns = [(''Story_ID'', ''object''),
         (''Phase'', ''object''), (''Est_Hours'', ''object'')], rows = []\<rparr>))) =
       [Unexpected ZeroDivisionError]"
  by code_simp

text \<open>
  C9 (amended): a failure of the load is fatal and the log tells its kind by the exception
  that \<^verbatim>\<open>read_csv\<close> raised. On FileNotFoundError \<^verbatim>\<open>main\<close> logs two records at
  CRITICAL level, the first the not-found message, and exits with status 1; on
  EmptyDataError, which \<^verbatim>\<open>read_csv\<close> raises when the file holds nothing to parse, it logs
  the file-is-empty message at CRITICAL level and exits with status 1; on any other
  exception it logs the unexpected-error message with the exception at CRITICAL level and
  exits with status 1. In these three cases the log holds the start banner, the loading
  line and these records only: no stage has run. Whenever \<^verbatim>\<open>read_csv\<close> returns a table,
  with rows or with none, the stages are entered and neither the not-found nor the
  file-is-empty message is logged.
\<close>

theorem C9_load_failures_are_fatal:
  "main (Inl FileNotFoundError) =
     ([(INFO, bar 114), (INFO, Text ''DATA VALIDATION PIPELINE STARTED''), (INFO, bar 70),
       (INFO, Loading), (CRITICAL, FileNotFound),
       (CRITICAL, Text ''Make sure test_data.csv is in the current directory.'')], 1)
   \<and> main (Inl EmptyDataError) =
     ([(INFO, bar 114), (INFO, Text ''DATA VALIDATION PIPELINE STARTED''), (INFO, bar 70),
       (INFO, Loading), (CRITICAL, FileEmpty)], 1)
   \<and> (e \<noteq> FileNotFoundError \<and> e \<noteq> EmptyDataError \<longrightarrow>
      main (Inl e) =
        ([(INFO, bar 114), (INFO, Text ''DATA VALIDATION PIPELINE STARTED''), (INFO, bar 70),
          (INFO, Loading), (CRITICAL, Unexpected e)], 1))
   \<and> (INFO, Text ''STEP 1: SCHEMA VALIDATION'') \<in> set (fst (main (Inr df)))
   \<and> (CRITICAL, FileNotFound) \<notin> set (fst (main (Inr df)))
   \<and> (CRITICAL, FileEmpty) \<notin> set (fst (main (Inr df)))"
proof -
  have a: "main (Inl FileNotFoundError) =
     ([(INFO, bar 114), (INFO, Text ''DATA VALIDATION PIPELINE STARTED''), (INFO, bar 70),
       (INFO, Loading), (CRITICAL, FileNotFound),
       (CRITICAL, Text ''Make sure test_data.csv is in the current directory.'')], 1)"
    by (simp add: main_def try_body_def seq_def emit_def raise_def)
  have b: "main (Inl EmptyDataError) =
     ([(INFO, bar 114), (INFO, Text ''DATA VALIDATION PIPELINE STARTED''), (INFO, bar 70),
       (INFO, Loading), (CRITICAL, FileEmpty)], 1)"
    by (simp add: main_def try_body_def seq_def emit_def raise_def)
  have c: "e \<noteq> FileNotFoundError \<and> e \<noteq> EmptyDataError \<longrightarrow>
      main (Inl e) =
        ([(INFO, bar 114), (INFO, Text ''DATA VALIDATION PIPELINE STARTED''), (INFO, bar 70),
          (INFO, Loading), (CRITICAL, Unexpected e)], 1)"
    by (cases e) (simp_all add: main_def try_body_def seq_def emit_def raise_def)
  have d: "(INFO, Text ''STEP 1: SCHEMA VALIDATION'') \<in> set (fst (main (Inr df)))"
    by (rule main_loaded_runs_stages)
  have f: "(CRITICAL, FileNotFound) \<notin> set (fst (main (Inr df)))"
    using main_loaded_free[of "(CRITICAL, FileNotFound)" df] by auto
  have g: "(CRITICAL, FileEmpty) \<notin> set (fst (main (Inr df)))"
    using main_loaded_free[of "(CRITICAL, FileEmpty)" df] by auto
  from a b c d f g show ?thesis by (intro conjI)
qed

theorem C9_load_failures_are_fatal_witness:
  "main (Inl (OtherError ''tokenizing'')) =
     ([(INFO, bar 114), (INFO, Text ''DATA VALIDATION PIPELINE STARTED''), (INFO, bar 70),
       (INFO, Loading), (CRITICAL, Unexpected (OtherError ''tokenizing''))], 1)
   \<and> (INFO, Text ''STEP 1: SCHEMA VALIDATION'')
        \<in> set (fst (main (Inr \<lparr>columns = [(''Story_ID'', ''object'')], rows = []\<rparr>)))
   \<and> (CRITICAL, FileEmpty)
        \<notin> set (fst (main (Inr \<lparr>columns = [(''Story_ID'', ''object'')], rows = []\<rparr>)))"
  using C9_load_failures_are_fatal
          [of "OtherError ''tokenizing''" "\<lparr>columns = [(''Story_ID'', ''object'')], rows = []\<rparr>"]
  by simp

end
